theory Spec2Isabelle
  imports Main
begin

section \<open>Data model (src/shared/types.ts)\<close>

text \<open>
  The item array manager of \<^verbatim>\<open>src/server/itemArrayManager.ts\<close> works on arrays of
  \<^verbatim>\<open>Item\<close> objects. TypeScript's \<^verbatim>\<open>number\<close> is modelled by \<open>int\<close>: quantities, stack
  sizes, weights, cell counts and decay counters are whole numbers in every caller of the
  repository. A property that is optional in the TypeScript type (\<^verbatim>\<open>decay?: number\<close>) is
  an \<open>option\<close> field, \<open>None\<close> standing for \<^verbatim>\<open>undefined\<close>.

  Three properties of an item hold nested objects: \<^verbatim>\<open>position\<close>, \<^verbatim>\<open>rules\<close> and \<^verbatim>\<open>data\<close>. The
  engine never looks into them. The records take their type \<open>'n\<close> as a parameter: where
  only values matter it is \<open>json\<close>, the content of the nested object; in the store model
  further down it is the reference to the nested object.
\<close>

datatype json = JNum int | JStr string | JArr "json list" | JObj "(string \<times> json) list"

text \<open>\<^verbatim>\<open>BaseItem\<close>; the field \<^verbatim>\<open>id\<close> is called \<open>item_id\<close> here, since \<open>id\<close> is HOL's identity.\<close>

record 'n base_item =
  item_id :: string
  name :: string
  desc :: string
  width :: int
  height :: int
  position :: "'n option"
  rotation :: int
  maxStack :: int
  weight :: int
  icon :: string
  decay :: "int option"
  durability :: "int option"
  useEventName :: "string option"
  rules :: "'n option"

text \<open>\<^verbatim>\<open>Item = { uid; quantity; data? } & BaseItem\<close>.\<close>

record 'n item = "'n base_item" +
  uid :: string
  quantity :: int
  data :: "'n option"

text \<open>\<^verbatim>\<open>AddOptions\<close>; \<open>maxCells\<close> is the pair (width, height).\<close>

record 'n add_options =
  opt_name :: "string option"
  opt_maxWeight :: "int option"
  opt_maxCells :: "(int \<times> int) option"
  opt_data :: "'n option"

text \<open>
  \<^verbatim>\<open>ItemManagerConfig\<close> is imported from \<^verbatim>\<open>../shared/config.js\<close>, a module of
  constants. The engine reads four values of it; they are a parameter of every function
  that uses them.
\<close>

record config =
  slots_enabled :: bool
  slots_maxCells :: "int \<times> int"
  weight_enabled :: bool
  weight_maxWeight :: int

text \<open>
  The catalog of src/server/itemManager.ts: \<^verbatim>\<open>getBaseItem(id)\<close> returns a copy of
  \<^verbatim>\<open>databaseItems[id]\<close> without its \<^verbatim>\<open>_id\<close>, or \<^verbatim>\<open>undefined\<close>.
\<close>

type_synonym 'n catalog = "string \<rightharpoonup> 'n base_item"

definition getBaseItem :: "'n catalog \<Rightarrow> string \<Rightarrow> 'n base_item option" where
  "getBaseItem databaseItems i = databaseItems i"

text \<open>
  \<^verbatim>\<open>Utility.uid.generate()\<close> belongs to the host framework. It is a parameter: \<open>g k\<close> is
  the string that the \<open>k\<close>-th call made during one engine operation returns.
\<close>

type_synonym uidgen = "nat \<Rightarrow> string"

text \<open>
  An engine operation returns \<^verbatim>\<open>Item[] | undefined\<close> and leaves a message in the
  closure variable \<^verbatim>\<open>errorMessage\<close>, which every operation first resets to the empty
  string. The model returns \<open>Inr items\<close> for a returned array and \<open>Inl msg\<close> for
  \<^verbatim>\<open>undefined\<close>, \<open>msg\<close> being the content of \<^verbatim>\<open>errorMessage\<close> at that return.
\<close>

type_synonym 'a result = "string + 'a"

section \<open>Capacity and weight policy\<close>

definition isWeightExceeded :: "'n item list \<Rightarrow> int \<Rightarrow> bool" where
  "isWeightExceeded items maxWeight =
     (let totalWeight = foldl (\<lambda>sum item. sum + quantity item * weight item) 0 items
      in totalWeight > maxWeight)"

text \<open>
  JavaScript's \<^verbatim>\<open>a || b\<close> yields \<open>b\<close> when \<open>a\<close> is falsy. For a number that is
  \<^verbatim>\<open>undefined\<close> and 0; an object (\<^verbatim>\<open>maxCells\<close>) is falsy only when it is \<^verbatim>\<open>undefined\<close>.
\<close>

definition or_number :: "int option \<Rightarrow> int \<Rightarrow> int" where
  "or_number a b = (case a of None \<Rightarrow> b | Some v \<Rightarrow> if v = 0 then b else v)"

definition or_object :: "'a option \<Rightarrow> 'a \<Rightarrow> 'a" where
  "or_object a b = (case a of None \<Rightarrow> b | Some v \<Rightarrow> v)"

definition verifyStackAndWeight :: "config \<Rightarrow> 'n item list \<Rightarrow> 'n add_options \<Rightarrow> bool" where
  "verifyStackAndWeight cfg items options =
     (let maxCells = or_object (opt_maxCells options) (slots_maxCells cfg);
          maxWeight = or_number (opt_maxWeight options) (weight_maxWeight cfg);
          totalCellsOccupied = foldl (\<lambda>sum item. sum + width item * height item) 0 items;
          totalAvailableCells = fst maxCells * snd maxCells
      in if (slots_enabled cfg \<and> totalCellsOccupied > totalAvailableCells) \<or> totalAvailableCells \<le> 0
         then False
         else if weight_enabled cfg \<and> isWeightExceeded items maxWeight then False
         else True)"

text \<open>
  Modelled from the spec: \<^verbatim>\<open>cloneItems\<close> calls \<^verbatim>\<open>Utility.clone.arrayData\<close> of the host
  framework, which the specification describes as a deep clone of the supplied collection
  (the source: "Clones the array of items to break any bindings"). On values a copy is the
  value itself; what the copy means for object identity is the subject of the store model
  further down.
\<close>

definition cloneItems :: "'n item list \<Rightarrow> 'n item list" where
  "cloneItems items = items"

section \<open>Array helpers\<close>

text \<open>\<^verbatim>\<open>Array.prototype.findIndex\<close>; \<open>None\<close> is the result \<open>-1\<close>.\<close>

fun findIndex :: "('a \<Rightarrow> bool) \<Rightarrow> 'a list \<Rightarrow> nat option" where
  "findIndex P [] = None"
| "findIndex P (x # xs) = (if P x then Some 0 else map_option Suc (findIndex P xs))"

text \<open>\<^verbatim>\<open>items.splice(i, 1)\<close>: the array without its element at index \<open>i\<close>.\<close>

definition splice1 :: "'a list \<Rightarrow> nat \<Rightarrow> 'a list" where
  "splice1 xs i = take i xs @ drop (Suc i) xs"

section \<open>The engine (src/server/itemArrayManager.ts)\<close>

text \<open>\<^verbatim>\<open>{ ...baseItem, quantity: actualQuantity, uid }\<close>, then \<^verbatim>\<open>newItem.data = options.data\<close>
  when \<^verbatim>\<open>options.data\<close> is set.\<close>

definition newItem :: "'n base_item \<Rightarrow> int \<Rightarrow> string \<Rightarrow> 'n add_options \<Rightarrow> 'n item" where
  "newItem baseItem actualQuantity u options =
     \<lparr> item_id = item_id baseItem, name = name baseItem, desc = desc baseItem,
       width = width baseItem, height = height baseItem, position = position baseItem,
       rotation = rotation baseItem, maxStack = maxStack baseItem, weight = weight baseItem,
       icon = icon baseItem, decay = decay baseItem, durability = durability baseItem,
       useEventName = useEventName baseItem, rules = rules baseItem,
       uid = u, quantity = actualQuantity, data = opt_data options \<rparr>"

text \<open>
  The \<^verbatim>\<open>while (quantity > 0)\<close> loop of \<^verbatim>\<open>addNewItemStacks\<close>. It does not end when
  \<^verbatim>\<open>baseItem.maxStack\<close> is not positive, so it is a partial function: \<open>None\<close> is the loop
  that never returns. \<open>k\<close> counts the identifiers generated so far; \<open>qty\<close> is the
  variable \<^verbatim>\<open>quantity\<close> of the source (here the name of the field).
\<close>

partial_function (option) addNewItemStacks_loop ::
  "uidgen \<Rightarrow> 'n base_item \<Rightarrow> 'n add_options \<Rightarrow> 'n item list \<Rightarrow> int \<Rightarrow> nat \<Rightarrow> 'n item list option" where
  "addNewItemStacks_loop g baseItem options items qty k =
     (if qty > 0
      then addNewItemStacks_loop g baseItem options
             (items @ [newItem baseItem (min qty (maxStack baseItem)) (g k) options])
             (qty - min qty (maxStack baseItem)) (Suc k)
      else Some items)"

declare addNewItemStacks_loop.simps [code]

definition addNewItemStacks ::
  "config \<Rightarrow> uidgen \<Rightarrow> 'n item list \<Rightarrow> 'n base_item \<Rightarrow> int \<Rightarrow> 'n add_options \<Rightarrow> 'n item list result option" where
  "addNewItemStacks cfg g items baseItem qty options =
     (case addNewItemStacks_loop g baseItem options items qty 0 of
        None \<Rightarrow> None
      | Some items' \<Rightarrow> Some (if verifyStackAndWeight cfg items' options then Inr items' else Inl ''''))"

text \<open>
  The \<^verbatim>\<open>for\<close> loop of \<^verbatim>\<open>handleItemStacking\<close>, by recursion on the part of the array not yet
  visited; it returns the array and the quantity left to place. The first test is the
  \<^verbatim>\<open>continue\<close>, the second the \<^verbatim>\<open>break\<close>.
\<close>

fun handleItemStacking_loop :: "'n base_item \<Rightarrow> 'n item list \<Rightarrow> int \<Rightarrow> 'n item list \<times> int" where
  "handleItemStacking_loop baseItem [] qty = ([], qty)"
| "handleItemStacking_loop baseItem (x # xs) qty =
     (if item_id x \<noteq> item_id baseItem \<or> quantity x = maxStack baseItem
      then (let (ys, q') = handleItemStacking_loop baseItem xs qty in (x # ys, q'))
      else if qty \<le> 0 then (x # xs, qty)
      else (let availableSpace = maxStack baseItem - quantity x;
                quantityToAdd = min availableSpace qty;
                (ys, q') = handleItemStacking_loop baseItem xs (qty - quantityToAdd)
            in (x\<lparr>quantity := quantity x + quantityToAdd\<rparr> # ys, q')))"

definition handleItemStacking ::
  "config \<Rightarrow> uidgen \<Rightarrow> 'n item list \<Rightarrow> 'n base_item \<Rightarrow> int \<Rightarrow> 'n add_options \<Rightarrow> 'n item list result option" where
  "handleItemStacking cfg g items baseItem qty options =
     (if maxStack baseItem \<le> 1 then addNewItemStacks cfg g items baseItem qty options
      else (let (items', qty') = handleItemStacking_loop baseItem items qty
            in if qty' > 0 then addNewItemStacks cfg g items' baseItem qty' options
               else Some (Inr items')))"

definition add ::
  "'n catalog \<Rightarrow> config \<Rightarrow> uidgen \<Rightarrow> string \<Rightarrow> int \<Rightarrow> 'n item list \<Rightarrow> 'n add_options \<Rightarrow> 'n item list result option" where
  "add cat cfg g i qty items0 options =
     (case getBaseItem cat i of
        None \<Rightarrow> Some (Inl ''Base item does not exist'')
      | Some baseItem \<Rightarrow>
          (let items = cloneItems items0
           in if maxStack baseItem \<le> 1 then addNewItemStacks cfg g items baseItem qty options
              else handleItemStacking cfg g items baseItem qty options))"

text \<open>\<^verbatim>\<open>items.push({ ...item })\<close>: the pushed copy has the fields of \<open>item\<close>.\<close>

definition addSpecificItem :: "config \<Rightarrow> 'n item \<Rightarrow> 'n item list \<Rightarrow> 'n add_options \<Rightarrow> 'n item list result" where
  "addSpecificItem cfg it items0 options =
     (let items = cloneItems items0 @ [it]
      in if verifyStackAndWeight cfg items options then Inr items else Inl '''')"

text \<open>
  \<^verbatim>\<open>remove\<close> searches the array for \<^verbatim>\<open>item.uid === uid\<close>. Both failure tests share one
  \<^verbatim>\<open>return undefined\<close> and set no message.
\<close>

definition remove :: "string \<Rightarrow> int \<Rightarrow> 'n item list \<Rightarrow> 'n item list result" where
  "remove u qty items0 =
     (case findIndex (\<lambda>item. uid item = u) items0 of
        None \<Rightarrow> Inl ''''
      | Some itemIndex \<Rightarrow>
          if quantity (items0 ! itemIndex) < qty then Inl ''''
          else (let items = cloneItems items0
                in if qty \<ge> quantity (items ! itemIndex) then Inr (splice1 items itemIndex)
                   else Inr (items[itemIndex :=
                          (items ! itemIndex)\<lparr>quantity := quantity (items ! itemIndex) - qty\<rparr>])))"

text \<open>\<^verbatim>\<open>removeAt\<close> returns the pair \<^verbatim>\<open>{ items, item }\<close>, \<open>item\<close> being what \<^verbatim>\<open>splice\<close> removed.\<close>

definition removeAt :: "string \<Rightarrow> 'n item list \<Rightarrow> ('n item list \<times> 'n item list) result" where
  "removeAt u items0 =
     (let items = cloneItems items0
      in case findIndex (\<lambda>x. uid x = u) items of
           None \<Rightarrow> Inl ''Could not find item to remove''
         | Some index \<Rightarrow> Inr (splice1 items index, [items ! index]))"

definition removeQuantityFrom :: "string \<Rightarrow> int \<Rightarrow> 'n item list \<Rightarrow> 'n item list result" where
  "removeQuantityFrom u qty items0 =
     (let items = cloneItems items0
      in case findIndex (\<lambda>x. uid x = u) items of
           None \<Rightarrow> Inl ''Could not find item to remove''
         | Some index \<Rightarrow>
             if quantity (items ! index) < qty
             then Inl ''Quantity provided does not match available item quantity''
             else if quantity (items ! index) = qty then Inr (splice1 items index)
             else Inr (items[index := (items ! index)\<lparr>quantity := quantity (items ! index) - qty\<rparr>]))"

text \<open>\<^verbatim>\<open>has\<close> adds up the quantities of all stacks of an item type.\<close>

definition totalQuantityFound :: "string \<Rightarrow> 'n item list \<Rightarrow> int" where
  "totalQuantityFound i items =
     foldl (\<lambda>sum item. if item_id item = i then sum + quantity item else sum) 0 items"

definition has :: "string \<Rightarrow> int \<Rightarrow> 'n item list \<Rightarrow> bool" where
  "has i qty items = (totalQuantityFound i items \<ge> qty)"

text \<open>
  \<^verbatim>\<open>split\<close>: the new stack is a copy of the source stack as it is after the decrement,
  with the quantity and the identifier replaced.
\<close>

definition split ::
  "'n catalog \<Rightarrow> config \<Rightarrow> uidgen \<Rightarrow> string \<Rightarrow> int \<Rightarrow> 'n item list \<Rightarrow> 'n add_options \<Rightarrow> 'n item list result" where
  "split cat cfg g u amountToSplit items0 options =
     (let items = cloneItems items0
      in case findIndex (\<lambda>x. uid x = u) items of
           None \<Rightarrow> Inl ''Could not find given item in inventory during split''
         | Some index \<Rightarrow>
             (case getBaseItem cat (item_id (items ! index)) of
                None \<Rightarrow> Inl ''Base item does not exist''
              | Some baseItem \<Rightarrow>
                  if quantity (items ! index) < amountToSplit \<or> quantity (items ! index) = amountToSplit
                  then Inl ''Item cannot be split''
                  else (let items1 = items[index :=
                                (items ! index)\<lparr>quantity := quantity (items ! index) - amountToSplit\<rparr>];
                            clonedItem = items1 ! index;
                            newItem = clonedItem\<lparr>uid := g 0, quantity := amountToSplit\<rparr>;
                            items2 = items1 @ [newItem]
                        in if verifyStackAndWeight cfg items2 options then Inr items2 else Inl '''')))"

text \<open>
  \<^verbatim>\<open>stack\<close>: \<open>diffToMax\<close> is computed from the target's own \<^verbatim>\<open>maxStack\<close> field; the catalog
  entry is only tested for \<^verbatim>\<open>maxStack <= 1\<close>. The two writes happen one after the other on
  the same array, so the second one reads the array the first one left.
\<close>

definition stack :: "'n catalog \<Rightarrow> string \<Rightarrow> string \<Rightarrow> 'n item list \<Rightarrow> 'n item list result" where
  "stack cat uidToStackOn uidToStack items0 =
     (let items = cloneItems items0
      in case findIndex (\<lambda>x. uid x = uidToStackOn) items of
           None \<Rightarrow> Inl ''Could not find both items in inventory''
         | Some stackableIndex \<Rightarrow>
        (case findIndex (\<lambda>x. uid x = uidToStack) items of
           None \<Rightarrow> Inl ''Could not find both items in inventory''
         | Some stackIndex \<Rightarrow>
             if item_id (items ! stackableIndex) \<noteq> item_id (items ! stackIndex)
             then Inl ''Both items were not the same, and cannot be stacked''
             else (case getBaseItem cat (item_id (items ! stackIndex)) of
                None \<Rightarrow> Inl ''Item cannot be stacked''
              | Some baseItem \<Rightarrow>
                  if maxStack baseItem \<le> 1 then Inl ''Item cannot be stacked''
                  else (let diffToMax = maxStack (items ! stackableIndex) - quantity (items ! stackableIndex)
                        in if diffToMax \<le> 0 then Inl ''Item is already at max stack''
                           else (let items1 = items[stackableIndex :=
                                         (items ! stackableIndex)
                                           \<lparr>quantity := quantity (items ! stackableIndex) + diffToMax\<rparr>]
                                 in if quantity (items1 ! stackIndex) > diffToMax
                                    then Inr (items1[stackIndex :=
                                           (items1 ! stackIndex)
                                             \<lparr>quantity := quantity (items1 ! stackIndex) - diffToMax\<rparr>])
                                    else Inr (splice1 items1 stackIndex))))))"

text \<open>
  The patch of \<^verbatim>\<open>update\<close> is a \<^verbatim>\<open>Partial<Omit<Item, '_id'>>\<close>: any subset of the
  properties of an item. \<open>None\<close> is a property that the patch does not have.
  \<^verbatim>\<open>Object.assign\<close> writes every property the patch has onto the stack.
\<close>

record 'n item_patch =
  p_item_id :: "string option"
  p_name :: "string option"
  p_desc :: "string option"
  p_width :: "int option"
  p_height :: "int option"
  p_position :: "'n option"
  p_rotation :: "int option"
  p_maxStack :: "int option"
  p_weight :: "int option"
  p_icon :: "string option"
  p_decay :: "int option"
  p_durability :: "int option"
  p_useEventName :: "string option"
  p_rules :: "'n option"
  p_uid :: "string option"
  p_quantity :: "int option"
  p_data :: "'n option"

definition assign_req :: "'a option \<Rightarrow> 'a \<Rightarrow> 'a" where
  "assign_req p old = (case p of None \<Rightarrow> old | Some v \<Rightarrow> v)"

definition assign_opt :: "'a option \<Rightarrow> 'a option \<Rightarrow> 'a option" where
  "assign_opt p old = (case p of None \<Rightarrow> old | Some v \<Rightarrow> Some v)"

definition object_assign :: "'n item \<Rightarrow> 'n item_patch \<Rightarrow> 'n item" where
  "object_assign x p =
     \<lparr> item_id = assign_req (p_item_id p) (item_id x), name = assign_req (p_name p) (name x),
       desc = assign_req (p_desc p) (desc x), width = assign_req (p_width p) (width x),
       height = assign_req (p_height p) (height x),
       position = assign_opt (p_position p) (position x),
       rotation = assign_req (p_rotation p) (rotation x),
       maxStack = assign_req (p_maxStack p) (maxStack x),
       weight = assign_req (p_weight p) (weight x), icon = assign_req (p_icon p) (icon x),
       decay = assign_opt (p_decay p) (decay x),
       durability = assign_opt (p_durability p) (durability x),
       useEventName = assign_opt (p_useEventName p) (useEventName x),
       rules = assign_opt (p_rules p) (rules x),
       uid = assign_req (p_uid p) (uid x), quantity = assign_req (p_quantity p) (quantity x),
       data = assign_opt (p_data p) (data x) \<rparr>"

definition update :: "string \<Rightarrow> 'n item_patch \<Rightarrow> 'n item list \<Rightarrow> 'n item list result" where
  "update u patch items0 =
     (let items = cloneItems items0
      in case findIndex (\<lambda>x. uid x = u) items of
           None \<Rightarrow> Inl ''Unable to get item by uid, item does not exist''
         | Some index \<Rightarrow>
             (case p_decay patch of
                Some d \<Rightarrow> if d \<le> 0 then Inr (splice1 items index)
                          else Inr (items[index := object_assign (items ! index) patch])
              | None \<Rightarrow> Inr (items[index := object_assign (items ! index) patch])))"

text \<open>
  \<^verbatim>\<open>invokeDecay\<close>: \<^verbatim>\<open>for (let i = items.length - 1; i >= 0; i--)\<close>. The second argument
  of the loop function is \<open>i + 1\<close>, so the loop starts at \<open>length items\<close> and ends at 0. A
  \<^verbatim>\<open>splice\<close> at \<open>i\<close> only moves elements at indices above \<open>i\<close>, so every read is in range.
\<close>

fun invokeDecay_loop :: "'n item list \<Rightarrow> nat \<Rightarrow> 'n item list" where
  "invokeDecay_loop items 0 = items"
| "invokeDecay_loop items (Suc i) =
     (case decay (items ! i) of
        None \<Rightarrow> invokeDecay_loop items i
      | Some d \<Rightarrow>
          (let items1 = items[i := (items ! i)\<lparr>decay := Some (d - 1)\<rparr>]
           in if d - 1 \<le> 0 then invokeDecay_loop (splice1 items1 i) i
              else invokeDecay_loop items1 i))"

definition invokeDecay :: "'n item list \<Rightarrow> 'n item list" where
  "invokeDecay items0 = (let items = cloneItems items0 in invokeDecay_loop items (length items))"

section \<open>The interface of the engine\<close>

text \<open>
  \<^verbatim>\<open>useItemArrayManager\<close> returns its operations as one object. A call of one of the
  operations that return a collection is a value of \<open>operation\<close>, and \<open>run\<close> is the
  call. For \<^verbatim>\<open>removeAt\<close> the result is the \<^verbatim>\<open>items\<close> component of what it returns.
  \<open>None\<close> is a call that does not return.
\<close>

datatype 'n operation =
    Add string int "'n add_options"
  | AddSpecificItem "'n item" "'n add_options"
  | Remove string int
  | RemoveAt string
  | RemoveQuantityFrom string int
  | Split string int "'n add_options"
  | Stack string string
  | Update string "'n item_patch"
  | InvokeDecay

fun run :: "'n catalog \<Rightarrow> config \<Rightarrow> uidgen \<Rightarrow> 'n operation \<Rightarrow> 'n item list \<Rightarrow> 'n item list result option" where
  "run cat cfg g (Add i qty options) items = add cat cfg g i qty items options"
| "run cat cfg g (AddSpecificItem it options) items = Some (addSpecificItem cfg it items options)"
| "run cat cfg g (Remove u qty) items = Some (remove u qty items)"
| "run cat cfg g (RemoveAt u) items =
     Some (case removeAt u items of Inl msg \<Rightarrow> Inl msg | Inr (items', removed) \<Rightarrow> Inr items')"
| "run cat cfg g (RemoveQuantityFrom u qty) items = Some (removeQuantityFrom u qty items)"
| "run cat cfg g (Split u amountToSplit options) items =
     Some (split cat cfg g u amountToSplit items options)"
| "run cat cfg g (Stack uidToStackOn uidToStack) items = Some (stack cat uidToStackOn uidToStack items)"
| "run cat cfg g (Update u patch) items = Some (update u patch items)"
| "run cat cfg g InvokeDecay items = Some (Inr (invokeDecay items))"

section \<open>What the specification says, in its own words\<close>

text \<open>
  Greedy filling (specification 4.2, step 3): in collection order, every stack of the item
  type \<open>i\<close> that is not at the max-stack \<open>m\<close> (its quantity is not \<open>m\<close>) receives the
  minimum of its remaining capacity \<open>m - quantity\<close> and the quantity still to place;
  filling stops once nothing remains to place.
\<close>

fun spec_fill :: "int \<Rightarrow> string \<Rightarrow> 'n item list \<Rightarrow> int \<Rightarrow> 'n item list \<times> int" where
  "spec_fill m i [] q = ([], q)"
| "spec_fill m i (x # xs) q =
     (if q \<le> 0 then (x # xs, q)
      else if item_id x = i \<and> quantity x \<noteq> m
      then (let n = min (m - quantity x) q; (ys, r) = spec_fill m i xs (q - n)
            in (x\<lparr>quantity := quantity x + n\<rparr> # ys, r))
      else (let (ys, r) = spec_fill m i xs q in (x # ys, r)))"

text \<open>
  Stack creation (specification 4.3): as many new stacks as needed to hold \<open>r\<close> units, each
  capped at the max-stack \<open>m\<close>: \<open>r div m\<close> full stacks, and one more with the rest when
  \<open>m\<close> does not divide \<open>r\<close>.
\<close>

definition spec_new_quantities :: "int \<Rightarrow> int \<Rightarrow> int list" where
  "spec_new_quantities m r =
     (if r \<le> 0 then []
      else replicate (nat (r div m)) m @ (if r mod m = 0 then [] else [r mod m]))"

text \<open>
  A new stack of \<open>n\<close> units of the definition \<open>b\<close>: a stack with the properties of the
  definition that holds \<open>n\<close> units, has the identifier \<open>u\<close> and carries the auxiliary data
  \<open>d\<close> supplied with the call. The \<open>j\<close>-th new stack of a call holds the \<open>j\<close>-th of the
  quantities and has the \<open>j\<close>-th generated identifier.
\<close>

definition spec_new_stack :: "'n base_item \<Rightarrow> int \<Rightarrow> string \<Rightarrow> 'n option \<Rightarrow> 'n item" where
  "spec_new_stack b n u d =
     \<lparr> item_id = item_id b, name = name b, desc = desc b, width = width b, height = height b,
       position = position b, rotation = rotation b, maxStack = maxStack b, weight = weight b,
       icon = icon b, decay = decay b, durability = durability b,
       useEventName = useEventName b, rules = rules b,
       uid = u, quantity = n, data = d \<rparr>"

definition spec_new_stacks :: "uidgen \<Rightarrow> 'n base_item \<Rightarrow> 'n add_options \<Rightarrow> nat \<Rightarrow> int list \<Rightarrow> 'n item list" where
  "spec_new_stacks g b opts k qs =
     map (\<lambda>(j, n). spec_new_stack b n (g j) (opt_data opts)) (enumerate k qs)"

text \<open>
  Decay tick (specification 4.9): a stack without a decay counter stays as it is; a counter is
  decremented by one, and the stack is removed when the counter is then zero or below.
\<close>

definition spec_decay_tick :: "'n item \<Rightarrow> 'n item option" where
  "spec_decay_tick x =
     (case decay x of
        None \<Rightarrow> Some x
      | Some d \<Rightarrow> if d - 1 \<le> 0 then None else Some (x\<lparr>decay := Some (d - 1)\<rparr>))"

text \<open>The invariants of a collection (specification 3).\<close>

definition stack_ok :: "'n item \<Rightarrow> bool" where
  "stack_ok x = (1 \<le> quantity x \<and> quantity x \<le> maxStack x)"

definition uids_unique :: "'n item list \<Rightarrow> bool" where
  "uids_unique items = distinct (map uid items)"

text \<open>
  Calls on which the engine keeps every quantity within \<open>[1, maxStack]\<close>: the catalog's
  max-stack of an added type is not above the \<open>maxStack\<close> field of the stacks of that type
  in the collection, a stack handed to \<^verbatim>\<open>addSpecificItem\<close> is itself within bounds, a
  quantity to remove is not negative, an amount to split off is at least 1, and a patch
  sets neither \<^verbatim>\<open>quantity\<close> nor \<^verbatim>\<open>maxStack\<close>.
\<close>

fun quantity_safe :: "'n catalog \<Rightarrow> 'n operation \<Rightarrow> 'n item list \<Rightarrow> bool" where
  "quantity_safe cat (Add i qty options) items =
     (case getBaseItem cat i of
        None \<Rightarrow> True
      | Some b \<Rightarrow> list_all (\<lambda>x. item_id x \<noteq> item_id b \<or> maxStack b \<le> maxStack x) items)"
| "quantity_safe cat (AddSpecificItem it options) items = stack_ok it"
| "quantity_safe cat (Remove u qty) items = (0 \<le> qty)"
| "quantity_safe cat (RemoveQuantityFrom u qty) items = (0 \<le> qty)"
| "quantity_safe cat (Split u amountToSplit options) items = (1 \<le> amountToSplit)"
| "quantity_safe cat (Update u patch) items = (p_quantity patch = None \<and> p_maxStack patch = None)"
| "quantity_safe cat _ items = True"

text \<open>
  Calls on which the engine keeps the identifiers distinct: a stack handed to
  \<^verbatim>\<open>addSpecificItem\<close> has an identifier that the collection does not have yet, and a patch
  that sets \<^verbatim>\<open>uid\<close> sets it to the identifier of the patched stack or to one that the
  collection does not have. \<open>fresh_uids\<close> is what is expected of the generator: it never
  returns the same identifier twice, nor one of the collection.
\<close>

fun uid_safe :: "'n operation \<Rightarrow> 'n item list \<Rightarrow> bool" where
  "uid_safe (AddSpecificItem it options) items = (uid it \<notin> set (map uid items))"
| "uid_safe (Update u patch) items =
     (case p_uid patch of None \<Rightarrow> True | Some v \<Rightarrow> v = u \<or> v \<notin> set (map uid items))"
| "uid_safe _ items = True"

definition fresh_uids :: "uidgen \<Rightarrow> 'n item list \<Rightarrow> bool" where
  "fresh_uids g items = (inj g \<and> (\<forall>k. g k \<notin> set (map uid items)))"

text \<open>The operations that create stacks.\<close>

fun creates_stacks :: "'n operation \<Rightarrow> bool" where
  "creates_stacks (Add i qty options) = True"
| "creates_stacks (Split u amountToSplit options) = True"
| "creates_stacks _ = False"

section \<open>Example data\<close>

definition water_bottle :: "json base_item" where
  "water_bottle =
     \<lparr> item_id = ''water_bottle'', name = ''Water Bottle'', desc = ''A bottle of water'',
       width = 1, height = 1, position = None, rotation = 0, maxStack = 5, weight = 1,
       icon = ''icon-water.png'', decay = None, durability = None, useEventName = None,
       rules = None \<rparr>"

definition catalog1 :: "json catalog" where
  "catalog1 = [''water_bottle'' \<mapsto> water_bottle]"

definition no_options :: "'n add_options" where
  "no_options = \<lparr> opt_name = None, opt_maxWeight = None, opt_maxCells = None, opt_data = None \<rparr>"

definition no_patch :: "'n item_patch" where
  "no_patch =
     \<lparr> p_item_id = None, p_name = None, p_desc = None, p_width = None, p_height = None,
       p_position = None, p_rotation = None, p_maxStack = None, p_weight = None, p_icon = None,
       p_decay = None, p_durability = None, p_useEventName = None, p_rules = None,
       p_uid = None, p_quantity = None, p_data = None \<rparr>"

text \<open>A configuration without limits, and one with a weight limit of 3.\<close>

definition unlimited :: config where
  "unlimited =
     \<lparr> slots_enabled = False, slots_maxCells = (1, 1), weight_enabled = False, weight_maxWeight = 0 \<rparr>"

definition weight_limited :: config where
  "weight_limited =
     \<lparr> slots_enabled = False, slots_maxCells = (10, 10), weight_enabled = True, weight_maxWeight = 3 \<rparr>"

text \<open>A generator whose \<open>k\<close>-th identifier is \<open>uid-\<close> followed by \<open>k\<close> times \<open>x\<close>.\<close>

definition uids :: uidgen where
  "uids k = ''uid-'' @ replicate k (CHR ''x'')"

text \<open>A stack of \<open>q\<close> water bottles with the identifier \<open>u\<close>, without auxiliary data.\<close>

definition bottles :: "string \<Rightarrow> int \<Rightarrow> json item" where
  "bottles u q =
     \<lparr> item_id = ''water_bottle'', name = ''Water Bottle'', desc = ''A bottle of water'',
       width = 1, height = 1, position = None, rotation = 0, maxStack = 5, weight = 1,
       icon = ''icon-water.png'', decay = None, durability = None, useEventName = None,
       rules = None, uid = u, quantity = q, data = None \<rparr>"

section \<open>The store model: object identity\<close>

text \<open>
  In JavaScript a collection is a reference to an array of references to item objects,
  and \<^verbatim>\<open>position\<close>, \<^verbatim>\<open>rules\<close> and \<^verbatim>\<open>data\<close> of an item are references to nested objects.
  Whether an operation changes the collection of its caller, and what a returned collection
  shares with it, is a question about references. The store maps references to arrays, to
  item objects (whose nested properties are references) and to the content of nested
  objects; every reference below \<open>next_ref\<close> has been allocated, those from \<open>next_ref\<close> on
  are free.
\<close>

type_synonym ref = nat

record store =
  arrays :: "ref \<Rightarrow> ref list"
  objects :: "ref \<Rightarrow> ref item"
  nested :: "ref \<Rightarrow> json"
  next_ref :: ref

definition new_nested :: "json \<Rightarrow> store \<Rightarrow> ref \<times> store" where
  "new_nested v s =
     (next_ref s, s\<lparr>nested := (nested s)(next_ref s := v), next_ref := Suc (next_ref s)\<rparr>)"

definition new_object :: "ref item \<Rightarrow> store \<Rightarrow> ref \<times> store" where
  "new_object x s =
     (next_ref s, s\<lparr>objects := (objects s)(next_ref s := x), next_ref := Suc (next_ref s)\<rparr>)"

definition new_array :: "ref list \<Rightarrow> store \<Rightarrow> ref \<times> store" where
  "new_array rs s =
     (next_ref s, s\<lparr>arrays := (arrays s)(next_ref s := rs), next_ref := Suc (next_ref s)\<rparr>)"

text \<open>
  Modelled from the spec: \<^verbatim>\<open>Utility.clone.objectData\<close> and \<^verbatim>\<open>Utility.clone.arrayData\<close>
  belong to the host framework; the specification describes them as deep clones. The copy
  of an item object is a new object whose nested objects are new objects with the content
  of the original ones; the copy of an array is a new array of copies of its elements.
\<close>

definition clone_nested :: "ref option \<Rightarrow> store \<Rightarrow> ref option \<times> store" where
  "clone_nested p s =
     (case p of
        None \<Rightarrow> (None, s)
      | Some r \<Rightarrow> (let (r', s') = new_nested (nested s r) s in (Some r', s')))"

definition objectData :: "ref \<Rightarrow> store \<Rightarrow> ref \<times> store" where
  "objectData r s =
     (let x = objects s r;
          (pos, s1) = clone_nested (position x) s;
          (rul, s2) = clone_nested (rules x) s1;
          (dat, s3) = clone_nested (data x) s2
      in new_object (x\<lparr>position := pos, rules := rul, data := dat\<rparr>) s3)"

fun arrayData_elements :: "ref list \<Rightarrow> store \<Rightarrow> ref list \<times> store" where
  "arrayData_elements [] s = ([], s)"
| "arrayData_elements (r # rs) s =
     (let (r', s1) = objectData r s;
          (rs', s2) = arrayData_elements rs s1
      in (r' # rs', s2))"

definition cloneItems_st :: "ref \<Rightarrow> store \<Rightarrow> ref \<times> store" where
  "cloneItems_st a s = (let (rs, s1) = arrayData_elements (arrays s a) s in new_array rs s1)"

text \<open>
  \<^verbatim>\<open>getBaseItem\<close> returns a deep copy of the catalog entry: a base item whose nested objects
  are new. The catalog itself is given by the content of its entries.
\<close>

definition new_nested_opt :: "json option \<Rightarrow> store \<Rightarrow> ref option \<times> store" where
  "new_nested_opt v s =
     (case v of
        None \<Rightarrow> (None, s)
      | Some c \<Rightarrow> (let (r, s') = new_nested c s in (Some r, s')))"

definition getBaseItem_st :: "json catalog \<Rightarrow> string \<Rightarrow> store \<Rightarrow> ref base_item option \<times> store" where
  "getBaseItem_st databaseItems i s =
     (case databaseItems i of
        None \<Rightarrow> (None, s)
      | Some b \<Rightarrow>
          (let (pos, s1) = new_nested_opt (position b) s;
               (rul, s2) = new_nested_opt (rules b) s1
           in (Some \<lparr> item_id = item_id b, name = name b, desc = desc b, width = width b,
                       height = height b, position = pos, rotation = rotation b,
                       maxStack = maxStack b, weight = weight b, icon = icon b,
                       decay = decay b, durability = durability b,
                       useEventName = useEventName b, rules = rul \<rparr>, s2)))"

text \<open>Reading: the item object at an index of an array, and all item objects of an array.\<close>

definition item_at :: "store \<Rightarrow> ref \<Rightarrow> nat \<Rightarrow> ref item" where
  "item_at s a i = objects s (arrays s a ! i)"

definition items_of :: "store \<Rightarrow> ref \<Rightarrow> ref item list" where
  "items_of s a = map (objects s) (arrays s a)"

text \<open>
  Writing: \<^verbatim>\<open>items[i].p = v\<close> changes the object that the array refers to at index \<open>i\<close>;
  \<^verbatim>\<open>items.splice(i, 1)\<close> changes the array; \<^verbatim>\<open>items.push(x)\<close> with a new object \<open>x\<close>
  (an object literal) allocates the object and changes the array.
\<close>

definition set_object :: "ref \<Rightarrow> (ref item \<Rightarrow> ref item) \<Rightarrow> store \<Rightarrow> store" where
  "set_object r f s = s\<lparr>objects := (objects s)(r := f (objects s r))\<rparr>"

definition modify :: "ref \<Rightarrow> nat \<Rightarrow> (ref item \<Rightarrow> ref item) \<Rightarrow> store \<Rightarrow> store" where
  "modify a i f s = set_object (arrays s a ! i) f s"

definition splice_st :: "ref \<Rightarrow> nat \<Rightarrow> store \<Rightarrow> store" where
  "splice_st a i s = s\<lparr>arrays := (arrays s)(a := splice1 (arrays s a) i)\<rparr>"

definition push_st :: "ref \<Rightarrow> ref item \<Rightarrow> store \<Rightarrow> store" where
  "push_st a x s =
     (let (r, s1) = new_object x s in s1\<lparr>arrays := (arrays s1)(a := arrays s1 a @ [r])\<rparr>)"

subsection \<open>The engine on the store\<close>

text \<open>
  Every operation takes the reference \<open>a0\<close> of the caller's array and the store, and
  returns its result (the reference of the returned array, or the message) and the store it
  leaves. The statements are those of the source, one by one.
\<close>

partial_function (option) addNewItemStacks_loop_st ::
  "uidgen \<Rightarrow> ref base_item \<Rightarrow> ref add_options \<Rightarrow> ref \<Rightarrow> int \<Rightarrow> nat \<Rightarrow> store \<Rightarrow> store option" where
  "addNewItemStacks_loop_st g baseItem options a qty k s =
     (if qty > 0
      then addNewItemStacks_loop_st g baseItem options a
             (qty - min qty (maxStack baseItem)) (Suc k)
             (push_st a (newItem baseItem (min qty (maxStack baseItem)) (g k) options) s)
      else Some s)"

declare addNewItemStacks_loop_st.simps [code]

definition addNewItemStacks_st ::
  "config \<Rightarrow> uidgen \<Rightarrow> ref \<Rightarrow> ref base_item \<Rightarrow> int \<Rightarrow> ref add_options \<Rightarrow> store
     \<Rightarrow> (ref result \<times> store) option" where
  "addNewItemStacks_st cfg g a baseItem qty options s =
     (case addNewItemStacks_loop_st g baseItem options a qty 0 s of
        None \<Rightarrow> None
      | Some s' \<Rightarrow>
          Some (if verifyStackAndWeight cfg (items_of s' a) options then Inr a else Inl '''', s'))"

fun handleItemStacking_loop_st :: "ref base_item \<Rightarrow> ref list \<Rightarrow> int \<Rightarrow> store \<Rightarrow> int \<times> store" where
  "handleItemStacking_loop_st baseItem [] qty s = (qty, s)"
| "handleItemStacking_loop_st baseItem (r # rs) qty s =
     (if item_id (objects s r) \<noteq> item_id baseItem \<or> quantity (objects s r) = maxStack baseItem
      then handleItemStacking_loop_st baseItem rs qty s
      else if qty \<le> 0 then (qty, s)
      else (let availableSpace = maxStack baseItem - quantity (objects s r);
                quantityToAdd = min availableSpace qty
            in handleItemStacking_loop_st baseItem rs (qty - quantityToAdd)
                 (set_object r (\<lambda>x. x\<lparr>quantity := quantity x + quantityToAdd\<rparr>) s)))"

definition handleItemStacking_st ::
  "config \<Rightarrow> uidgen \<Rightarrow> ref \<Rightarrow> ref base_item \<Rightarrow> int \<Rightarrow> ref add_options \<Rightarrow> store
     \<Rightarrow> (ref result \<times> store) option" where
  "handleItemStacking_st cfg g a baseItem qty options s =
     (if maxStack baseItem \<le> 1 then addNewItemStacks_st cfg g a baseItem qty options s
      else (let (qty', s') = handleItemStacking_loop_st baseItem (arrays s a) qty s
            in if qty' > 0 then addNewItemStacks_st cfg g a baseItem qty' options s'
               else Some (Inr a, s')))"

definition add_st ::
  "json catalog \<Rightarrow> config \<Rightarrow> uidgen \<Rightarrow> string \<Rightarrow> int \<Rightarrow> ref \<Rightarrow> ref add_options \<Rightarrow> store
     \<Rightarrow> (ref result \<times> store) option" where
  "add_st cat cfg g i qty a0 options s =
     (case getBaseItem_st cat i s of
        (None, s1) \<Rightarrow> Some (Inl ''Base item does not exist'', s1)
      | (Some baseItem, s1) \<Rightarrow>
          (let (a, s2) = cloneItems_st a0 s1
           in if maxStack baseItem \<le> 1 then addNewItemStacks_st cfg g a baseItem qty options s2
              else handleItemStacking_st cfg g a baseItem qty options s2))"

text \<open>
  \<^verbatim>\<open>items.push({ ...item })\<close>: the spread copies the properties of \<open>item\<close> into a new
  object. The copy is shallow: a nested property of the new object is the reference that
  \<open>item\<close> holds. Only the properties of \<open>item\<close> are read, so the argument is given by them.
\<close>

definition addSpecificItem_st ::
  "config \<Rightarrow> ref item \<Rightarrow> ref \<Rightarrow> ref add_options \<Rightarrow> store \<Rightarrow> ref result \<times> store" where
  "addSpecificItem_st cfg it a0 options s =
     (let (a, s1) = cloneItems_st a0 s;
          s2 = push_st a it s1
      in (if verifyStackAndWeight cfg (items_of s2 a) options then Inr a else Inl '''', s2))"

definition remove_st :: "string \<Rightarrow> int \<Rightarrow> ref \<Rightarrow> store \<Rightarrow> ref result \<times> store" where
  "remove_st u qty a0 s =
     (case findIndex (\<lambda>item. uid item = u) (items_of s a0) of
        None \<Rightarrow> (Inl '''', s)
      | Some itemIndex \<Rightarrow>
          if quantity (item_at s a0 itemIndex) < qty then (Inl '''', s)
          else (let (a, s1) = cloneItems_st a0 s
                in if qty \<ge> quantity (item_at s1 a itemIndex)
                   then (Inr a, splice_st a itemIndex s1)
                   else (Inr a, modify a itemIndex (\<lambda>x. x\<lparr>quantity := quantity x - qty\<rparr>) s1)))"

text \<open>\<^verbatim>\<open>removeAt\<close>: \<^verbatim>\<open>splice\<close> returns a new array with the removed element.\<close>

definition removeAt_st :: "string \<Rightarrow> ref \<Rightarrow> store \<Rightarrow> (ref \<times> ref) result \<times> store" where
  "removeAt_st u a0 s =
     (let (a, s1) = cloneItems_st a0 s
      in case findIndex (\<lambda>x. uid x = u) (items_of s1 a) of
           None \<Rightarrow> (Inl ''Could not find item to remove'', s1)
         | Some index \<Rightarrow>
             (let (removed, s2) = new_array [arrays s1 a ! index] s1
              in (Inr (a, removed), splice_st a index s2)))"

definition removeQuantityFrom_st :: "string \<Rightarrow> int \<Rightarrow> ref \<Rightarrow> store \<Rightarrow> ref result \<times> store" where
  "removeQuantityFrom_st u qty a0 s =
     (let (a, s1) = cloneItems_st a0 s
      in case findIndex (\<lambda>x. uid x = u) (items_of s1 a) of
           None \<Rightarrow> (Inl ''Could not find item to remove'', s1)
         | Some index \<Rightarrow>
             if quantity (item_at s1 a index) < qty
             then (Inl ''Quantity provided does not match available item quantity'', s1)
             else if quantity (item_at s1 a index) = qty then (Inr a, splice_st a index s1)
             else (Inr a, modify a index (\<lambda>x. x\<lparr>quantity := quantity x - qty\<rparr>) s1))"

definition split_st ::
  "json catalog \<Rightarrow> config \<Rightarrow> uidgen \<Rightarrow> string \<Rightarrow> int \<Rightarrow> ref \<Rightarrow> ref add_options \<Rightarrow> store
     \<Rightarrow> ref result \<times> store" where
  "split_st cat cfg g u amountToSplit a0 options s =
     (let (a, s1) = cloneItems_st a0 s
      in case findIndex (\<lambda>x. uid x = u) (items_of s1 a) of
           None \<Rightarrow> (Inl ''Could not find given item in inventory during split'', s1)
         | Some index \<Rightarrow>
             (case getBaseItem_st cat (item_id (item_at s1 a index)) s1 of
                (None, s2) \<Rightarrow> (Inl ''Base item does not exist'', s2)
              | (Some baseItem, s2) \<Rightarrow>
                  if quantity (item_at s2 a index) < amountToSplit
                     \<or> quantity (item_at s2 a index) = amountToSplit
                  then (Inl ''Item cannot be split'', s2)
                  else (let s3 = modify a index (\<lambda>x. x\<lparr>quantity := quantity x - amountToSplit\<rparr>) s2;
                            (clonedItem, s4) = objectData (arrays s3 a ! index) s3;
                            s5 = push_st a ((objects s4 clonedItem)
                                              \<lparr>uid := g 0, quantity := amountToSplit\<rparr>) s4
                        in (if verifyStackAndWeight cfg (items_of s5 a) options
                            then Inr a else Inl '''', s5))))"

definition stack_st ::
  "json catalog \<Rightarrow> string \<Rightarrow> string \<Rightarrow> ref \<Rightarrow> store \<Rightarrow> ref result \<times> store" where
  "stack_st cat uidToStackOn uidToStack a0 s =
     (let (a, s1) = cloneItems_st a0 s
      in case findIndex (\<lambda>x. uid x = uidToStackOn) (items_of s1 a) of
           None \<Rightarrow> (Inl ''Could not find both items in inventory'', s1)
         | Some stackableIndex \<Rightarrow>
        (case findIndex (\<lambda>x. uid x = uidToStack) (items_of s1 a) of
           None \<Rightarrow> (Inl ''Could not find both items in inventory'', s1)
         | Some stackIndex \<Rightarrow>
             if item_id (item_at s1 a stackableIndex) \<noteq> item_id (item_at s1 a stackIndex)
             then (Inl ''Both items were not the same, and cannot be stacked'', s1)
             else (case getBaseItem_st cat (item_id (item_at s1 a stackIndex)) s1 of
                (None, s2) \<Rightarrow> (Inl ''Item cannot be stacked'', s2)
              | (Some baseItem, s2) \<Rightarrow>
                  if maxStack baseItem \<le> 1 then (Inl ''Item cannot be stacked'', s2)
                  else (let diffToMax = maxStack (item_at s2 a stackableIndex)
                                          - quantity (item_at s2 a stackableIndex)
                        in if diffToMax \<le> 0 then (Inl ''Item is already at max stack'', s2)
                           else (let s3 = modify a stackableIndex
                                            (\<lambda>x. x\<lparr>quantity := quantity x + diffToMax\<rparr>) s2
                                 in if quantity (item_at s3 a stackIndex) > diffToMax
                                    then (Inr a, modify a stackIndex
                                            (\<lambda>x. x\<lparr>quantity := quantity x - diffToMax\<rparr>) s3)
                                    else (Inr a, splice_st a stackIndex s3))))))"

text \<open>
  \<^verbatim>\<open>Object.assign(items[index], data)\<close> writes the properties of the patch onto the object;
  a nested property of the patch is written as the reference that the patch holds.
\<close>

definition update_st :: "string \<Rightarrow> ref item_patch \<Rightarrow> ref \<Rightarrow> store \<Rightarrow> ref result \<times> store" where
  "update_st u patch a0 s =
     (let (a, s1) = cloneItems_st a0 s
      in case findIndex (\<lambda>x. uid x = u) (items_of s1 a) of
           None \<Rightarrow> (Inl ''Unable to get item by uid, item does not exist'', s1)
         | Some index \<Rightarrow>
             (case p_decay patch of
                Some d \<Rightarrow> if d \<le> 0 then (Inr a, splice_st a index s1)
                          else (Inr a, modify a index (\<lambda>x. object_assign x patch) s1)
              | None \<Rightarrow> (Inr a, modify a index (\<lambda>x. object_assign x patch) s1)))"

fun invokeDecay_loop_st :: "ref \<Rightarrow> nat \<Rightarrow> store \<Rightarrow> store" where
  "invokeDecay_loop_st a 0 s = s"
| "invokeDecay_loop_st a (Suc i) s =
     (case decay (item_at s a i) of
        None \<Rightarrow> invokeDecay_loop_st a i s
      | Some d \<Rightarrow>
          (let s1 = modify a i (\<lambda>x. x\<lparr>decay := Some (d - 1)\<rparr>) s
           in if d - 1 \<le> 0 then invokeDecay_loop_st a i (splice_st a i s1)
              else invokeDecay_loop_st a i s1))"

definition invokeDecay_st :: "ref \<Rightarrow> store \<Rightarrow> ref \<times> store" where
  "invokeDecay_st a0 s =
     (let (a, s1) = cloneItems_st a0 s
      in (a, invokeDecay_loop_st a (length (arrays s1 a)) s1))"

text \<open>A call of an operation on the store; for \<^verbatim>\<open>removeAt\<close> the result is the array \<^verbatim>\<open>items\<close>.\<close>

fun run_st ::
  "json catalog \<Rightarrow> config \<Rightarrow> uidgen \<Rightarrow> ref operation \<Rightarrow> ref \<Rightarrow> store \<Rightarrow> (ref result \<times> store) option" where
  "run_st cat cfg g (Add i qty options) a0 s = add_st cat cfg g i qty a0 options s"
| "run_st cat cfg g (AddSpecificItem it options) a0 s = Some (addSpecificItem_st cfg it a0 options s)"
| "run_st cat cfg g (Remove u qty) a0 s = Some (remove_st u qty a0 s)"
| "run_st cat cfg g (RemoveAt u) a0 s =
     Some (case removeAt_st u a0 s of
             (Inl msg, s') \<Rightarrow> (Inl msg, s')
           | (Inr (a, removed), s') \<Rightarrow> (Inr a, s'))"
| "run_st cat cfg g (RemoveQuantityFrom u qty) a0 s = Some (removeQuantityFrom_st u qty a0 s)"
| "run_st cat cfg g (Split u amountToSplit options) a0 s =
     Some (split_st cat cfg g u amountToSplit a0 options s)"
| "run_st cat cfg g (Stack uidToStackOn uidToStack) a0 s =
     Some (stack_st cat uidToStackOn uidToStack a0 s)"
| "run_st cat cfg g (Update u patch) a0 s = Some (update_st u patch a0 s)"
| "run_st cat cfg g InvokeDecay a0 s = Some (case invokeDecay_st a0 s of (a, s') \<Rightarrow> (Inr a, s'))"

subsection \<open>Sharing\<close>

text \<open>The nested objects that an item, a patch or the options of a call refer to.\<close>

definition nested_refs :: "ref item \<Rightarrow> ref set" where
  "nested_refs x = set_option (position x) \<union> set_option (rules x) \<union> set_option (data x)"

definition patch_refs :: "ref item_patch \<Rightarrow> ref set" where
  "patch_refs p = set_option (p_position p) \<union> set_option (p_rules p) \<union> set_option (p_data p)"

fun argument_refs :: "ref operation \<Rightarrow> ref set" where
  "argument_refs (Add i qty options) = set_option (opt_data options)"
| "argument_refs (AddSpecificItem it options) = nested_refs it"
| "argument_refs (Update u patch) = patch_refs patch"
| "argument_refs _ = {}"

text \<open>
  \<open>unchanged s s'\<close>: whatever was allocated in \<open>s\<close> is in \<open>s'\<close> what it was in \<open>s\<close>.
  \<open>owned P s0 s a\<close>: nothing of \<open>s0\<close> has changed, and the array \<open>a\<close> and the item objects
  it refers to were allocated after \<open>s0\<close>; the nested objects of these items were allocated
  after \<open>s0\<close> too, or are among \<open>P\<close>.
\<close>

definition unchanged :: "store \<Rightarrow> store \<Rightarrow> bool" where
  "unchanged s s' =
     (next_ref s \<le> next_ref s'
      \<and> (\<forall>r < next_ref s. arrays s' r = arrays s r \<and> objects s' r = objects s r
                           \<and> nested s' r = nested s r))"

definition owned :: "ref set \<Rightarrow> store \<Rightarrow> store \<Rightarrow> ref \<Rightarrow> bool" where
  "owned P s0 s a =
     (unchanged s0 s \<and> next_ref s0 \<le> a \<and> a < next_ref s
      \<and> (\<forall>r \<in> set (arrays s a).
            next_ref s0 \<le> r \<and> r < next_ref s
            \<and> (\<forall>p \<in> nested_refs (objects s r). next_ref s0 \<le> p \<or> p \<in> P)))"

text \<open>
  The collection at \<open>a\<close> as a value: every item with the content of its nested objects.
\<close>

definition resolve :: "store \<Rightarrow> ref item \<Rightarrow> json item" where
  "resolve s x =
     \<lparr> item_id = item_id x, name = name x, desc = desc x, width = width x, height = height x,
       position = map_option (nested s) (position x), rotation = rotation x,
       maxStack = maxStack x, weight = weight x, icon = icon x, decay = decay x,
       durability = durability x, useEventName = useEventName x,
       rules = map_option (nested s) (rules x),
       uid = uid x, quantity = quantity x, data = map_option (nested s) (data x) \<rparr>"

definition snapshot :: "store \<Rightarrow> ref \<Rightarrow> json item list" where
  "snapshot s a = map (resolve s) (items_of s a)"

text \<open>\<open>allocated s a\<close>: the array \<open>a\<close>, its items and their nested objects exist in \<open>s\<close>.\<close>

definition allocated :: "store \<Rightarrow> ref \<Rightarrow> bool" where
  "allocated s a =
     (a < next_ref s
      \<and> (\<forall>r \<in> set (arrays s a). r < next_ref s \<and> (\<forall>p \<in> nested_refs (objects s r). p < next_ref s)))"

subsection \<open>An example store\<close>

text \<open>A letter: an item that does not stack and carries auxiliary data.\<close>

definition letter :: "string \<Rightarrow> 'n option \<Rightarrow> 'n item" where
  "letter u d =
     \<lparr> item_id = ''letter'', name = ''Letter'', desc = ''A sealed letter'',
       width = 1, height = 1, position = None, rotation = 0, maxStack = 1, weight = 1,
       icon = ''icon-letter.png'', decay = None, durability = None, useEventName = None,
       rules = None, uid = u, quantity = 1, data = d \<rparr>"

text \<open>
  A store with one collection, the array at reference 0. It holds one letter, the object
  at reference 1, whose \<^verbatim>\<open>data\<close> is the nested object at reference 2.
\<close>

definition store1 :: store where
  "store1 =
     \<lparr> arrays = (\<lambda>r. [])(0 := [1]),
       objects = (\<lambda>r. letter '''' None)(1 := letter ''a'' (Some 2)),
       nested = (\<lambda>r. JObj [])(2 := JObj [(''text'', JStr ''hello'')]),
       next_ref = 3 \<rparr>"

subsection \<open>From the store to values\<close>

text \<open>
  The arguments of a call as values: nested references are replaced by the content of the
  objects they refer to, as \<open>resolve\<close> does for items.
\<close>

definition resolve_base :: "store \<Rightarrow> ref base_item \<Rightarrow> json base_item" where
  "resolve_base s b =
     \<lparr> item_id = item_id b, name = name b, desc = desc b, width = width b, height = height b,
       position = map_option (nested s) (position b), rotation = rotation b,
       maxStack = maxStack b, weight = weight b, icon = icon b, decay = decay b,
       durability = durability b, useEventName = useEventName b,
       rules = map_option (nested s) (rules b) \<rparr>"

definition resolve_options :: "store \<Rightarrow> ref add_options \<Rightarrow> json add_options" where
  "resolve_options s options =
     \<lparr> opt_name = opt_name options, opt_maxWeight = opt_maxWeight options,
       opt_maxCells = opt_maxCells options,
       opt_data = map_option (nested s) (opt_data options) \<rparr>"

definition resolve_patch :: "store \<Rightarrow> ref item_patch \<Rightarrow> json item_patch" where
  "resolve_patch s p =
     \<lparr> p_item_id = p_item_id p, p_name = p_name p, p_desc = p_desc p, p_width = p_width p,
       p_height = p_height p, p_position = map_option (nested s) (p_position p),
       p_rotation = p_rotation p, p_maxStack = p_maxStack p, p_weight = p_weight p,
       p_icon = p_icon p, p_decay = p_decay p, p_durability = p_durability p,
       p_useEventName = p_useEventName p, p_rules = map_option (nested s) (p_rules p),
       p_uid = p_uid p, p_quantity = p_quantity p,
       p_data = map_option (nested s) (p_data p) \<rparr>"

fun resolve_operation :: "store \<Rightarrow> ref operation \<Rightarrow> json operation" where
  "resolve_operation s (Add i qty options) = Add i qty (resolve_options s options)"
| "resolve_operation s (AddSpecificItem it options) =
     AddSpecificItem (resolve s it) (resolve_options s options)"
| "resolve_operation s (Remove u qty) = Remove u qty"
| "resolve_operation s (RemoveAt u) = RemoveAt u"
| "resolve_operation s (RemoveQuantityFrom u qty) = RemoveQuantityFrom u qty"
| "resolve_operation s (Split u amountToSplit options) =
     Split u amountToSplit (resolve_options s options)"
| "resolve_operation s (Stack uidToStackOn uidToStack) = Stack uidToStackOn uidToStack"
| "resolve_operation s (Update u patch) = Update u (resolve_patch s patch)"
| "resolve_operation s InvokeDecay = InvokeDecay"

text \<open>
  The result of a call on the store as a value: the message, or the value of the
  returned collection in the store that the call leaves.
\<close>

definition result_value :: "ref result \<times> store \<Rightarrow> json item list result" where
  "result_value rs = (case rs of (Inl msg, s') \<Rightarrow> Inl msg | (Inr a, s') \<Rightarrow> Inr (snapshot s' a))"

text \<open>
  \<open>collection s a\<close>: the array \<open>a\<close> exists in \<open>s\<close> with all it refers to, and no two of
  its elements are the same object.
\<close>

definition collection :: "store \<Rightarrow> ref \<Rightarrow> bool" where
  "collection s a = (allocated s a \<and> distinct (arrays s a))"

section \<open>Lemmas about the loops\<close>

lemma findIndex_Some:
  "findIndex P xs = Some i \<Longrightarrow> i < length xs \<and> P (xs ! i) \<and> (\<forall>j<i. \<not> P (xs ! j))"
proof (induction xs arbitrary: i)
  case Nil
  then show ?case by simp
next
  case (Cons x xs)
  show ?case
  proof (cases "P x")
    case True
    with Cons.prems show ?thesis by simp
  next
    case False
    with Cons.prems obtain i' where i': "findIndex P xs = Some i'" "i = Suc i'"
      by auto
    from Cons.IH [OF i'(1)] False i'(2) show ?thesis
      by (auto simp: nth_Cons split: nat.splits)
  qed
qed

lemma findIndex_None: "(findIndex P xs = None) = (\<forall>x \<in> set xs. \<not> P x)"
  by (induction xs) auto

lemma spec_new_quantities_step:
  assumes "0 < q" "1 \<le> m"
  shows "spec_new_quantities m q = min q m # spec_new_quantities m (q - min q m)"
proof (cases "q < m")
  case True
  with assms show ?thesis by (simp add: spec_new_quantities_def min_def)
next
  case False
  then have qm: "m \<le> q" by simp
  have d: "q div m = (q - m) div m + 1" using assms
    by (metis diff_add_cancel div_add_self2 not_one_le_zero)
  have md: "(q - m) mod m = q mod m"
    by (metis mod_diff_right_eq mod_self diff_zero)
  have nn: "0 \<le> (q - m) div m" using qm assms by (simp add: pos_imp_zdiv_nonneg_iff)
  show ?thesis
  proof (cases "q = m")
    case True
    with assms show ?thesis by (simp add: spec_new_quantities_def)
  next
    case False
    with qm have "0 < q - m" by simp
    with assms qm d md nn show ?thesis
      by (simp add: spec_new_quantities_def min_def nat_add_distrib)
  qed
qed

text \<open>The object that \<^verbatim>\<open>addNewItemStacks\<close> builds is the new stack of the specification.\<close>

lemma newItem_spec: "newItem b n u options = spec_new_stack b n u (opt_data options)"
  by (simp add: newItem_def spec_new_stack_def)

lemma spec_new_stacks_newItem:
  "spec_new_stacks g b opts k qs = map (\<lambda>(j, n). newItem b n (g j) opts) (enumerate k qs)"
  by (simp add: spec_new_stacks_def newItem_spec)

lemma bottles_newItem: "bottles u q = newItem water_bottle q u no_options"
  by (simp add: bottles_def newItem_def water_bottle_def no_options_def)

lemma spec_new_stacks_Cons:
  "spec_new_stacks g b opts k (n # qs) = newItem b n (g k) opts # spec_new_stacks g b opts (Suc k) qs"
  by (simp add: spec_new_stacks_newItem)

lemma addNewItemStacks_loop_terminates:
  assumes "1 \<le> maxStack b"
  shows "addNewItemStacks_loop g b opts items q k
           = Some (items @ spec_new_stacks g b opts k (spec_new_quantities (maxStack b) q))"
proof (induction "nat q" arbitrary: q items k rule: less_induct)
  case less
  show ?case
  proof (cases "0 < q")
    case False
    then show ?thesis
      by (simp add: addNewItemStacks_loop.simps spec_new_quantities_def spec_new_stacks_newItem)
  next
    case True
    let ?a = "min q (maxStack b)"
    from True assms have "nat (q - ?a) < nat q" by (simp add: min_def)
    from less [OF this] True assms show ?thesis
      by (subst addNewItemStacks_loop.simps)
         (simp add: spec_new_quantities_step [OF True assms] spec_new_stacks_Cons)
  qed
qed

lemma handleItemStacking_loop_spec:
  "handleItemStacking_loop b items q = spec_fill (maxStack b) (item_id b) items q"
proof (induction items arbitrary: q)
  case Nil
  show ?case by simp
next
  case (Cons x xs)
  have stop: "q \<le> 0 \<Longrightarrow> handleItemStacking_loop b ys q = (ys, q)" for ys
    by (induction ys) auto
  show ?case
  proof (cases "q \<le> 0")
    case True
    then show ?thesis using stop [of "x # xs"] by simp
  next
    case False
    then show ?thesis by (auto simp: Cons.IH Let_def split: prod.splits)
  qed
qed


lemma map_filter_append:
  "List.map_filter f (xs @ ys) = List.map_filter f xs @ List.map_filter f ys"
  by (simp add: List.map_filter_def)

lemma invokeDecay_loop_take_drop:
  "n \<le> length items \<Longrightarrow>
     invokeDecay_loop items n = List.map_filter spec_decay_tick (take n items) @ drop n items"
proof (induction n arbitrary: items)
  case 0
  show ?case by simp
next
  case (Suc n)
  then have n: "n < length items" by simp
  have tk: "take (Suc n) items = take n items @ [items ! n]"
    using n by (simp add: take_Suc_conv_app_nth)
  have dr: "drop n items = items ! n # drop (Suc n) items"
    using n by (simp add: Cons_nth_drop_Suc)
  show ?case
  proof (cases "decay (items ! n)")
    case None
    then have dt: "spec_decay_tick (items ! n) = Some (items ! n)"
      by (simp add: spec_decay_tick_def)
    from None Suc.IH [of items] n show ?thesis
      by (simp add: tk dr map_filter_append dt)
  next
    case (Some d)
    let ?x = "(items ! n)\<lparr>decay := Some (d - 1)\<rparr>"
    let ?items1 = "items[n := ?x]"
    show ?thesis
    proof (cases "d - 1 \<le> 0")
      case True
      with Some have dt: "spec_decay_tick (items ! n) = None"
        by (simp add: spec_decay_tick_def)
      have sp: "splice1 ?items1 n = take n items @ drop (Suc n) items"
        using n by (simp add: splice1_def)
      have "invokeDecay_loop (splice1 ?items1 n) n
              = List.map_filter spec_decay_tick (take n (splice1 ?items1 n)) @ drop n (splice1 ?items1 n)"
        using n by (intro Suc.IH) (simp add: splice1_def)
      then have "invokeDecay_loop (splice1 ?items1 n) n
              = List.map_filter spec_decay_tick (take n items) @ drop (Suc n) items"
        using n by (simp add: sp)
      with Some True show ?thesis
        by (simp add: tk map_filter_append dt)
    next
      case False
      with Some have dt: "spec_decay_tick (items ! n) = Some ?x"
        by (simp add: spec_decay_tick_def)
      have "invokeDecay_loop ?items1 n
              = List.map_filter spec_decay_tick (take n ?items1) @ drop n ?items1"
        using n by (intro Suc.IH) simp
      then have "invokeDecay_loop ?items1 n
              = List.map_filter spec_decay_tick (take n items) @ ?x # drop (Suc n) items"
        using n by (simp add: drop_update_swap dr)
      with Some False show ?thesis
        by (simp add: tk map_filter_append dt)
    qed
  qed
qed

lemma addNewItemStacks_loop_Some_imp:
  assumes "addNewItemStacks_loop g b opts items q k = Some ys"
  shows "q \<le> 0 \<or> 1 \<le> maxStack b"
proof (rule addNewItemStacks_loop.raw_induct
         [where P = "\<lambda>g b opts items q k ys. q \<le> 0 \<or> 1 \<le> maxStack b", OF _ assms])
  fix loop :: "uidgen \<Rightarrow> 'n base_item \<Rightarrow> 'n add_options \<Rightarrow> 'n item list \<Rightarrow> int \<Rightarrow> nat \<Rightarrow> 'n item list option"
  fix g b opts items q k ys
  assume IH: "\<And>g b opts items q k ys. loop g b opts items q k = Some ys \<Longrightarrow> q \<le> 0 \<or> 1 \<le> maxStack b"
  assume step: "(if 0 < q
      then loop g b opts (items @ [newItem b (min q (maxStack b)) (g k) opts])
             (q - min q (maxStack b)) (Suc k)
      else Some items) = Some ys"
  show "q \<le> 0 \<or> 1 \<le> maxStack b"
  proof (cases "0 < q")
    case False
    then show ?thesis by simp
  next
    case True
    with step have "loop g b opts (items @ [newItem b (min q (maxStack b)) (g k) opts])
             (q - min q (maxStack b)) (Suc k) = Some ys"
      by simp
    from IH [OF this] True show ?thesis
      by (auto simp: min_def split: if_splits)
  qed
qed

lemma addNewItemStacks_loop_eq:
  "addNewItemStacks_loop g b opts items q k =
     (if 0 < q \<and> maxStack b \<le> 0 then None
      else Some (items @ spec_new_stacks g b opts k (spec_new_quantities (maxStack b) q)))"
proof (cases "0 < q \<and> maxStack b \<le> 0")
  case True
  then have "addNewItemStacks_loop g b opts items q k \<noteq> Some ys" for ys
    using addNewItemStacks_loop_Some_imp [of g b opts items q k ys] by auto
  with True show ?thesis by auto
next
  case False
  show ?thesis
  proof (cases "0 < q")
    case True
    with False have "1 \<le> maxStack b" by simp
    from addNewItemStacks_loop_terminates [OF this] False show ?thesis by simp
  next
    case q: False
    then show ?thesis
      by (simp add: addNewItemStacks_loop.simps spec_new_quantities_def spec_new_stacks_newItem)
  qed
qed

lemma add_closed_form:
  assumes "getBaseItem cat i = Some b" "1 < maxStack b"
  shows "add cat cfg g i qty items options =
        (let (filled, rest) = spec_fill (maxStack b) (item_id b) items qty;
             result = filled @ spec_new_stacks g b options 0 (spec_new_quantities (maxStack b) rest)
         in Some (if 0 < rest \<and> \<not> verifyStackAndWeight cfg result options then Inl '''' else Inr result))"
proof -
  obtain filled rest where fr: "spec_fill (maxStack b) (item_id b) items qty = (filled, rest)"
    by (cases "spec_fill (maxStack b) (item_id b) items qty")
  show ?thesis
  proof (cases "0 < rest")
    case True
    with assms fr show ?thesis
      by (simp add: add_def cloneItems_def handleItemStacking_def handleItemStacking_loop_spec
            addNewItemStacks_def addNewItemStacks_loop_eq)
  next
    case False
    then have "spec_new_stacks g b options 0 (spec_new_quantities (maxStack b) rest) = []"
      by (simp add: spec_new_quantities_def spec_new_stacks_newItem)
    with False assms fr show ?thesis
      by (simp add: add_def cloneItems_def handleItemStacking_def handleItemStacking_loop_spec)
  qed
qed


section \<open>Lemmas about quantities\<close>

lemma list_all_update: "list_all P xs \<Longrightarrow> P y \<Longrightarrow> list_all P (xs[i := y])"
  unfolding list_all_iff by (auto dest: set_update_subset_insert [THEN subsetD])

lemma list_all_splice1: "list_all P xs \<Longrightarrow> list_all P (splice1 xs i)"
  unfolding splice1_def list_all_iff
  by (auto dest: in_set_takeD in_set_dropD)

lemma list_all_nth: "list_all P xs \<Longrightarrow> i < length xs \<Longrightarrow> P (xs ! i)"
  by (simp add: list_all_length)

lemma spec_new_quantities_bounds:
  assumes "1 \<le> m" "n \<in> set (spec_new_quantities m r)"
  shows "1 \<le> n \<and> n \<le> m"
proof (cases "0 < r")
  case False
  with assms show ?thesis by (simp add: spec_new_quantities_def)
next
  case True
  from assms(1) have "0 \<le> r mod m" "r mod m < m" by simp_all
  with True assms show ?thesis
    by (auto simp: spec_new_quantities_def split: if_splits)
qed

lemma spec_new_stacks_ok:
  assumes "1 \<le> maxStack b"
  shows "list_all stack_ok (spec_new_stacks g b opts k (spec_new_quantities (maxStack b) r))"
proof -
  have "stack_ok (newItem b n u opts)" if "n \<in> set (spec_new_quantities (maxStack b) r)" for n u
    using spec_new_quantities_bounds [OF assms that] by (simp add: stack_ok_def newItem_def)
  then show ?thesis
    by (auto simp: spec_new_stacks_newItem list_all_iff in_set_enumerate_eq)
qed

lemma spec_fill_ok:
  assumes "1 < m"
  shows "list_all stack_ok items \<Longrightarrow> list_all (\<lambda>x. item_id x \<noteq> i \<or> m \<le> maxStack x) items
     \<Longrightarrow> list_all stack_ok (fst (spec_fill m i items q))"
proof (induction items arbitrary: q)
  case Nil
  show ?case by simp
next
  case (Cons x xs)
  from Cons.prems have x: "stack_ok x" "item_id x \<noteq> i \<or> m \<le> maxStack x"
    and xs: "list_all stack_ok xs" "list_all (\<lambda>x. item_id x \<noteq> i \<or> m \<le> maxStack x) xs"
    by simp_all
  note IH = Cons.IH [OF xs]
  show ?case
  proof (cases "q \<le> 0")
    case True
    with Cons.prems show ?thesis by simp
  next
    case False
    show ?thesis
    proof (cases "item_id x = i \<and> quantity x \<noteq> m")
      case skip: False
      with False x IH [of q] show ?thesis
        by (auto simp: Let_def split: prod.splits)
    next
      case True
      let ?n = "min (m - quantity x) q"
      from True x False assms have "stack_ok (x\<lparr>quantity := quantity x + ?n\<rparr>)"
        by (auto simp: stack_ok_def min_def)
      with True False IH [of "q - ?n"] show ?thesis
        by (auto simp: Let_def split: prod.splits)
    qed
  qed
qed

lemma add_unstackable:
  assumes "getBaseItem cat i = Some b" "\<not> 1 < maxStack b"
  shows "add cat cfg g i qty items options =
        (let result = items @ spec_new_stacks g b options 0 (spec_new_quantities (maxStack b) qty)
         in if 0 < qty \<and> maxStack b \<le> 0 then None
            else Some (if verifyStackAndWeight cfg result options then Inr result else Inl ''''))"
  using assms
  by (simp add: add_def cloneItems_def addNewItemStacks_def addNewItemStacks_loop_eq Let_def)

lemma add_ok:
  assumes inv: "list_all stack_ok items"
      and safe: "quantity_safe cat (Add i qty options) items"
      and run: "add cat cfg g i qty items options = Some (Inr items')"
  shows "list_all stack_ok items'"
proof (cases "getBaseItem cat i")
  case None
  with run show ?thesis by (simp add: add_def)
next
  case (Some b)
  show ?thesis
  proof (cases "1 < maxStack b")
    case True
    obtain filled rest where fr: "spec_fill (maxStack b) (item_id b) items qty = (filled, rest)"
      by (cases "spec_fill (maxStack b) (item_id b) items qty")
    let ?new = "spec_new_stacks g b options 0 (spec_new_quantities (maxStack b) rest)"
    from safe Some have "list_all (\<lambda>x. item_id x \<noteq> item_id b \<or> maxStack b \<le> maxStack x) items"
      by simp
    from spec_fill_ok [OF True inv this, of qty] fr have f: "list_all stack_ok filled"
      by simp
    from True have n: "list_all stack_ok ?new"
      by (intro spec_new_stacks_ok) simp
    from run have "items' = filled @ ?new"
      unfolding add_closed_form [OF Some True] fr by (simp add: Let_def split: if_splits)
    with f n show ?thesis by simp
  next
    case False
    let ?new = "spec_new_stacks g b options 0 (spec_new_quantities (maxStack b) qty)"
    from run have fin: "\<not> (0 < qty \<and> maxStack b \<le> 0)"
      unfolding add_unstackable [OF Some False] by (simp add: Let_def split: if_splits)
    with run have res: "items' = items @ ?new"
      unfolding add_unstackable [OF Some False] by (simp add: Let_def split: if_splits)
    have "list_all stack_ok ?new"
    proof (cases "0 < qty")
      case True
      with fin have "1 \<le> maxStack b" by simp
      then show ?thesis by (rule spec_new_stacks_ok)
    next
      case False
      then show ?thesis by (simp add: spec_new_quantities_def spec_new_stacks_newItem)
    qed
    with res inv show ?thesis by simp
  qed
qed

lemma remove_ok:
  assumes inv: "list_all stack_ok items" and safe: "0 \<le> qty"
      and run: "remove u qty items = Inr items'"
  shows "list_all stack_ok items'"
proof (cases "findIndex (\<lambda>item. uid item = u) items")
  case None
  with run show ?thesis by (simp add: remove_def)
next
  case (Some index)
  from findIndex_Some [OF Some] have idx: "index < length items" by simp
  from list_all_nth [OF inv idx] have x: "stack_ok (items ! index)" .
  show ?thesis
  proof (cases "quantity (items ! index) \<le> qty")
    case True
    with run Some have "items' = splice1 items index"
      by (simp add: remove_def cloneItems_def split: if_splits)
    with inv show ?thesis by (simp add: list_all_splice1)
  next
    case False
    with run Some have res: "items' = items[index :=
        (items ! index)\<lparr>quantity := quantity (items ! index) - qty\<rparr>]"
      by (simp add: remove_def cloneItems_def split: if_splits)
    from x False safe have "stack_ok ((items ! index)\<lparr>quantity := quantity (items ! index) - qty\<rparr>)"
      by (simp add: stack_ok_def)
    with inv res show ?thesis by (simp add: list_all_update)
  qed
qed

lemma removeQuantityFrom_ok:
  assumes inv: "list_all stack_ok items" and safe: "0 \<le> qty"
      and run: "removeQuantityFrom u qty items = Inr items'"
  shows "list_all stack_ok items'"
proof (cases "findIndex (\<lambda>x. uid x = u) items")
  case None
  with run show ?thesis by (simp add: removeQuantityFrom_def cloneItems_def)
next
  case (Some index)
  from findIndex_Some [OF Some] have idx: "index < length items" by simp
  from list_all_nth [OF inv idx] have x: "stack_ok (items ! index)" .
  show ?thesis
  proof (cases "quantity (items ! index) = qty")
    case True
    with run Some have "items' = splice1 items index"
      by (simp add: removeQuantityFrom_def cloneItems_def split: if_splits)
    with inv show ?thesis by (simp add: list_all_splice1)
  next
    case False
    with run Some have res: "items' = items[index :=
        (items ! index)\<lparr>quantity := quantity (items ! index) - qty\<rparr>]"
      and ge: "\<not> quantity (items ! index) < qty"
      by (simp_all add: removeQuantityFrom_def cloneItems_def split: if_splits)
    from x False ge safe have "stack_ok ((items ! index)\<lparr>quantity := quantity (items ! index) - qty\<rparr>)"
      by (simp add: stack_ok_def)
    with inv res show ?thesis by (simp add: list_all_update)
  qed
qed

lemma removeAt_ok:
  assumes inv: "list_all stack_ok items"
      and run: "removeAt u items = Inr (items', removed)"
  shows "list_all stack_ok items'"
  using assms
  by (auto simp: removeAt_def cloneItems_def list_all_splice1 split: option.splits)

lemma split_ok:
  assumes inv: "list_all stack_ok items" and safe: "1 \<le> amount"
      and run: "split cat cfg g u amount items options = Inr items'"
  shows "list_all stack_ok items'"
proof (cases "findIndex (\<lambda>x. uid x = u) items")
  case None
  with run show ?thesis by (simp add: split_def cloneItems_def)
next
  case (Some index)
  from findIndex_Some [OF Some] have idx: "index < length items" by simp
  from list_all_nth [OF inv idx] have x: "stack_ok (items ! index)" .
  let ?src = "(items ! index)\<lparr>quantity := quantity (items ! index) - amount\<rparr>"
  let ?new = "(items ! index)\<lparr>uid := g 0, quantity := amount\<rparr>"
  from run Some idx have lt: "amount < quantity (items ! index)"
    and res: "items' = items[index := ?src] @ [?new]"
    by (auto simp: split_def cloneItems_def Let_def split: option.splits if_splits)
  from x lt safe have "stack_ok ?src" "stack_ok ?new"
    by (simp_all add: stack_ok_def)
  with inv res show ?thesis by (simp add: list_all_update)
qed

lemma stack_ok_stack:
  assumes inv: "list_all stack_ok items"
      and run: "stack cat uidToStackOn uidToStack items = Inr items'"
  shows "list_all stack_ok items'"
proof -
  from run obtain t s where t: "findIndex (\<lambda>x. uid x = uidToStackOn) items = Some t"
    and s: "findIndex (\<lambda>x. uid x = uidToStack) items = Some s"
    by (auto simp: stack_def cloneItems_def split: option.splits)
  from findIndex_Some [OF t] findIndex_Some [OF s]
  have tl: "t < length items" and sl: "s < length items" by simp_all
  from list_all_nth [OF inv tl] list_all_nth [OF inv sl]
  have xt: "stack_ok (items ! t)" and xs: "stack_ok (items ! s)" .
  let ?d = "maxStack (items ! t) - quantity (items ! t)"
  let ?items1 = "items[t := (items ! t)\<lparr>quantity := quantity (items ! t) + ?d\<rparr>]"
  from run t s have d: "0 < ?d"
    and res: "items' = (if quantity (?items1 ! s) > ?d
        then ?items1[s := (?items1 ! s)\<lparr>quantity := quantity (?items1 ! s) - ?d\<rparr>]
        else splice1 ?items1 s)"
    by (auto simp: stack_def cloneItems_def Let_def split: option.splits if_splits)
  from xt d have "stack_ok ((items ! t)\<lparr>quantity := quantity (items ! t) + ?d\<rparr>)"
    by (simp add: stack_ok_def)
  with inv have inv1: "list_all stack_ok ?items1" by (simp add: list_all_update)
  from sl have sl1: "s < length ?items1" by simp
  from list_all_nth [OF inv1 sl1] have x1: "stack_ok (?items1 ! s)" .
  show ?thesis
  proof (cases "quantity (?items1 ! s) > ?d")
    case True
    with x1 d have "stack_ok ((?items1 ! s)\<lparr>quantity := quantity (?items1 ! s) - ?d\<rparr>)"
      by (simp add: stack_ok_def)
    with inv1 have "list_all stack_ok (?items1[s := (?items1 ! s)\<lparr>quantity := quantity (?items1 ! s) - ?d\<rparr>])"
      by (rule list_all_update)
    with res True show ?thesis by simp
  next
    case False
    from inv1 have "list_all stack_ok (splice1 ?items1 s)" by (rule list_all_splice1)
    with res False show ?thesis by simp
  qed
qed

lemma update_ok:
  assumes inv: "list_all stack_ok items"
      and safe: "p_quantity patch = None" "p_maxStack patch = None"
      and run: "update u patch items = Inr items'"
  shows "list_all stack_ok items'"
proof (cases "findIndex (\<lambda>x. uid x = u) items")
  case None
  with run show ?thesis by (simp add: update_def cloneItems_def)
next
  case (Some index)
  from findIndex_Some [OF Some] have idx: "index < length items" by simp
  from list_all_nth [OF inv idx] have x: "stack_ok (items ! index)" .
  from x safe have "stack_ok (object_assign (items ! index) patch)"
    by (simp add: stack_ok_def object_assign_def assign_req_def)
  with inv have "list_all stack_ok (items[index := object_assign (items ! index) patch])"
    by (rule list_all_update)
  with run Some inv show ?thesis
    by (auto simp: update_def cloneItems_def list_all_splice1 split: option.splits if_splits)
qed

lemma invokeDecay_eq: "invokeDecay items = List.map_filter spec_decay_tick items"
  using invokeDecay_loop_take_drop [of "length items" items]
  by (simp add: invokeDecay_def cloneItems_def)

lemma invokeDecay_ok:
  fixes items :: "'n item list"
  assumes "list_all stack_ok items"
  shows "list_all stack_ok (invokeDecay items)"
proof -
  have "stack_ok y" if "stack_ok x" "spec_decay_tick x = Some y" for x y :: "'n item"
    using that by (auto simp: spec_decay_tick_def stack_ok_def split: option.splits if_splits)
  with assms show ?thesis
    by (auto simp: invokeDecay_eq list_all_iff List.map_filter_def)
qed

lemma addSpecificItem_ok:
  assumes "list_all stack_ok items" "stack_ok it"
      and "addSpecificItem cfg it items options = Inr items'"
  shows "list_all stack_ok items'"
  using assms by (auto simp: addSpecificItem_def cloneItems_def Let_def split: if_splits)

text \<open>
  \<^verbatim>\<open>split\<close> for a stack that is in the collection and whose item type the catalog knows:
  it fails with \<open>Item cannot be split\<close> exactly when the amount is greater than or equal to
  the quantity of the stack, and a successful split of an amount of at least 1 returns the
  collection with the source stack decremented by the amount and one appended stack; both
  have a positive quantity, and the two quantities add up to the original one.
\<close>

lemma split_positive_amount:
  assumes "findIndex (\<lambda>x. uid x = u) items = Some index"
      and "getBaseItem cat (item_id (items ! index)) = Some b"
  shows "((split cat cfg g u amount items options = Inl ''Item cannot be split'')
            = (quantity (items ! index) \<le> amount))
       \<and> (split cat cfg g u amount items options = Inr result \<and> 1 \<le> amount \<longrightarrow>
            result = items[index := (items ! index)\<lparr>quantity := quantity (items ! index) - amount\<rparr>]
                       @ [(items ! index)\<lparr>uid := g 0, quantity := amount\<rparr>]
            \<and> 0 < quantity (result ! index) \<and> 0 < quantity (last result)
            \<and> quantity (result ! index) + quantity (last result) = quantity (items ! index)
            \<and> quantity (last result) = amount \<and> uid (last result) = g 0
            \<and> data (last result) = data (items ! index))"
proof -
  from findIndex_Some [OF assms(1)] have idx: "index < length items" by simp
  let ?src = "(items ! index)\<lparr>quantity := quantity (items ! index) - amount\<rparr>"
  let ?items2 = "items[index := ?src] @ [(items ! index)\<lparr>uid := g 0, quantity := amount\<rparr>]"
  have eq: "split cat cfg g u amount items options =
      (if quantity (items ! index) \<le> amount then Inl ''Item cannot be split''
       else if verifyStackAndWeight cfg ?items2 options then Inr ?items2 else Inl '''')"
    using assms idx by (auto simp: split_def cloneItems_def Let_def)
  have first: "(split cat cfg g u amount items options = Inl ''Item cannot be split'')
            = (quantity (items ! index) \<le> amount)"
    by (simp add: eq)
  have second: "result = ?items2
            \<and> 0 < quantity (result ! index) \<and> 0 < quantity (last result)
            \<and> quantity (result ! index) + quantity (last result) = quantity (items ! index)
            \<and> quantity (last result) = amount \<and> uid (last result) = g 0
            \<and> data (last result) = data (items ! index)"
    if ok: "split cat cfg g u amount items options = Inr result" and pos: "1 \<le> amount"
  proof -
    from ok have lt: "amount < quantity (items ! index)" and res: "result = ?items2"
      by (auto simp: eq split: if_splits)
    from idx have at: "?items2 ! index = ?src"
      by (simp add: nth_append)
    from res lt pos at show ?thesis by simp
  qed
  from first second show ?thesis by blast
qed

section \<open>Lemmas about identifiers\<close>

lemma map_uid_update_quantity: "map uid (xs[i := (xs ! i)\<lparr>quantity := q\<rparr>]) = map uid xs"
  by (cases "i < length xs") (simp_all add: map_update list_update_same_conv list_update_beyond)

lemma map_splice1: "map f (splice1 xs i) = splice1 (map f xs) i"
  by (simp add: splice1_def take_map drop_map)

lemma distinct_splice1: "distinct xs \<Longrightarrow> distinct (splice1 xs i)"
  unfolding splice1_def
  by (simp add: set_take_disj_set_drop_if_distinct)

lemma uids_unique_splice1: "uids_unique xs \<Longrightarrow> uids_unique (splice1 xs i)"
  by (simp add: uids_unique_def map_splice1 distinct_splice1)

lemma map_uid_spec_fill: "spec_fill m i items q = (ys, r) \<Longrightarrow> map uid ys = map uid items"
proof (induction items arbitrary: q ys r)
  case Nil
  then show ?case by simp
next
  case (Cons x xs)
  show ?case
  proof (cases "q \<le> 0")
    case True
    with Cons.prems show ?thesis by simp
  next
    case False
    show ?thesis
    proof (cases "item_id x = i \<and> quantity x \<noteq> m")
      case True
      let ?n = "min (m - quantity x) q"
      obtain zs r' where z: "spec_fill m i xs (q - ?n) = (zs, r')"
        by (cases "spec_fill m i xs (q - ?n)")
      from Cons.IH [OF z] Cons.prems True False z show ?thesis
        by (auto simp: Let_def)
    next
      case skip: False
      obtain zs r' where z: "spec_fill m i xs q = (zs, r')"
        by (cases "spec_fill m i xs q")
      from Cons.IH [OF z] Cons.prems skip False z show ?thesis
        by (auto simp: Let_def)
    qed
  qed
qed

lemma map_uid_spec_new_stacks: "map uid (spec_new_stacks g b opts k qs) = map g [k ..< k + length qs]"
proof (induction qs arbitrary: k)
  case Nil
  show ?case by (simp add: spec_new_stacks_newItem)
next
  case (Cons n qs)
  have "[k ..< k + length (n # qs)] = k # [Suc k ..< Suc k + length qs]"
    by (subst upt_rec) simp
  with Cons [of "Suc k"] show ?case
    by (simp add: spec_new_stacks_Cons newItem_def del: upt_Suc)
qed

lemma fresh_append_distinct:
  assumes "uids_unique items" "fresh_uids g items"
  shows "distinct (map uid items @ map g [0 ..< n])"
proof -
  from assms(2) have "inj g" and out: "\<And>k. g k \<notin> set (map uid items)"
    by (simp_all add: fresh_uids_def)
  from \<open>inj g\<close> have "distinct (map g [0 ..< n])"
    by (simp add: distinct_map inj_on_def inj_def)
  moreover have "set (map uid items) \<inter> set (map g [0 ..< n]) = {}"
  proof (rule ccontr)
    assume "set (map uid items) \<inter> set (map g [0 ..< n]) \<noteq> {}"
    then obtain x where x: "x \<in> set (map uid items)" and "x \<in> set (map g [0 ..< n])" by blast
    then obtain k where "x = g k" by auto
    with x out [of k] show False by simp
  qed
  ultimately show ?thesis using assms(1)
    by (simp add: uids_unique_def)
qed

lemma add_uids:
  assumes run: "add cat cfg g i qty items options = Some (Inr items')"
  shows "\<exists>n. map uid items' = map uid items @ map g [0 ..< n]"
proof (cases "getBaseItem cat i")
  case None
  with run show ?thesis by (simp add: add_def)
next
  case (Some b)
  show ?thesis
  proof (cases "1 < maxStack b")
    case True
    obtain filled rest where fr: "spec_fill (maxStack b) (item_id b) items qty = (filled, rest)"
      by (cases "spec_fill (maxStack b) (item_id b) items qty")
    let ?qs = "spec_new_quantities (maxStack b) rest"
    from run have "items' = filled @ spec_new_stacks g b options 0 ?qs"
      unfolding add_closed_form [OF Some True] fr by (simp add: Let_def split: if_splits)
    moreover from map_uid_spec_fill [OF fr]
    have "map uid filled = map uid items" .
    ultimately have "map uid items' = map uid items @ map g [0 ..< length ?qs]"
      by (simp add: map_uid_spec_new_stacks)
    then show ?thesis ..
  next
    case False
    let ?qs = "spec_new_quantities (maxStack b) qty"
    from run have fin: "\<not> (0 < qty \<and> maxStack b \<le> 0)"
      unfolding add_unstackable [OF Some False] by (simp add: Let_def split: if_splits)
    with run have "items' = items @ spec_new_stacks g b options 0 ?qs"
      unfolding add_unstackable [OF Some False] by (simp add: Let_def split: if_splits)
    then have "map uid items' = map uid items @ map g [0 ..< length ?qs]"
      by (simp add: map_uid_spec_new_stacks)
    then show ?thesis ..
  qed
qed

lemma split_uids:
  assumes run: "split cat cfg g u amount items options = Inr items'"
  shows "map uid items' = map uid items @ map g [0 ..< 1]"
proof (cases "findIndex (\<lambda>x. uid x = u) items")
  case None
  with run show ?thesis by (simp add: split_def cloneItems_def)
next
  case (Some index)
  from findIndex_Some [OF Some] have idx: "index < length items" by simp
  let ?src = "(items ! index)\<lparr>quantity := quantity (items ! index) - amount\<rparr>"
  let ?new = "(items ! index)\<lparr>uid := g 0, quantity := amount\<rparr>"
  from run Some idx have "items' = items[index := ?src] @ [?new]"
    by (auto simp: split_def cloneItems_def Let_def split: option.splits if_splits)
  then show ?thesis by (simp add: map_uid_update_quantity)
qed

lemma remove_uids:
  assumes "uids_unique items" "remove u qty items = Inr items'"
  shows "uids_unique items'"
  using assms
  by (auto simp: remove_def cloneItems_def Let_def map_splice1 distinct_splice1
        uids_unique_def map_uid_update_quantity split: option.splits if_splits)

lemma removeQuantityFrom_uids:
  assumes "uids_unique items" "removeQuantityFrom u qty items = Inr items'"
  shows "uids_unique items'"
  using assms
  by (auto simp: removeQuantityFrom_def cloneItems_def Let_def map_splice1 distinct_splice1
        uids_unique_def map_uid_update_quantity split: option.splits if_splits)

lemma removeAt_uids:
  assumes "uids_unique items" "removeAt u items = Inr (items', removed)"
  shows "uids_unique items'"
  using assms
  by (auto simp: removeAt_def cloneItems_def uids_unique_splice1 split: option.splits)

lemma stack_uids:
  assumes inv: "uids_unique items"
      and run: "stack cat uidToStackOn uidToStack items = Inr items'"
  shows "uids_unique items'"
proof -
  from run obtain t s where t: "findIndex (\<lambda>x. uid x = uidToStackOn) items = Some t"
    and s: "findIndex (\<lambda>x. uid x = uidToStack) items = Some s"
    by (auto simp: stack_def cloneItems_def split: option.splits)
  let ?d = "maxStack (items ! t) - quantity (items ! t)"
  let ?items1 = "items[t := (items ! t)\<lparr>quantity := quantity (items ! t) + ?d\<rparr>]"
  from run t s have res: "items' = (if quantity (?items1 ! s) > ?d
        then ?items1[s := (?items1 ! s)\<lparr>quantity := quantity (?items1 ! s) - ?d\<rparr>]
        else splice1 ?items1 s)"
    by (auto simp: stack_def cloneItems_def Let_def split: option.splits if_splits)
  from inv have inv1: "uids_unique ?items1"
    by (simp add: uids_unique_def map_uid_update_quantity)
  show ?thesis
  proof (cases "quantity (?items1 ! s) > ?d")
    case True
    have "map uid (?items1[s := (?items1 ! s)\<lparr>quantity := quantity (?items1 ! s) - ?d\<rparr>])
            = map uid ?items1"
      by (rule map_uid_update_quantity)
    with inv1 res True show ?thesis by (simp add: uids_unique_def)
  next
    case False
    with res uids_unique_splice1 [OF inv1, of s] show ?thesis by simp
  qed
qed

lemma update_uids:
  assumes inv: "uids_unique items"
      and safe: "uid_safe (Update u patch) items"
      and run: "update u patch items = Inr items'"
  shows "uids_unique items'"
proof (cases "findIndex (\<lambda>x. uid x = u) items")
  case None
  with run show ?thesis by (simp add: update_def cloneItems_def)
next
  case (Some index)
  from findIndex_Some [OF Some] have idx: "index < length items" and at: "uid (items ! index) = u"
    by simp_all
  let ?y = "object_assign (items ! index) patch"
  have "uid ?y = u \<or> uid ?y \<notin> set (map uid items)"
    using safe at by (auto simp: object_assign_def assign_req_def split: option.splits)
  then have "uid ?y \<notin> set (map uid items) - {map uid items ! index}"
    using idx at by auto
  with inv have "distinct ((map uid items)[index := uid ?y])"
    unfolding uids_unique_def by (rule distinct_list_update)
  then have "uids_unique (items[index := ?y])"
    by (simp add: uids_unique_def map_update)
  with run Some inv show ?thesis
    by (auto simp: update_def cloneItems_def uids_unique_splice1 split: option.splits if_splits)
qed

lemma invokeDecay_uids:
  fixes items :: "'n item list"
  assumes "uids_unique items"
  shows "uids_unique (invokeDecay items)"
proof -
  have u: "uid y = uid x" if "spec_decay_tick x = Some y" for x y :: "'n item"
    using that by (auto simp: spec_decay_tick_def split: option.splits if_splits)
  have sub: "set (map uid (List.map_filter spec_decay_tick xs)) \<subseteq> set (map uid xs)"
    for xs :: "'n item list"
    by (induction xs) (auto simp: u split: option.splits)
  have "distinct (map uid xs) \<Longrightarrow> distinct (map uid (List.map_filter spec_decay_tick xs))"
    for xs :: "'n item list"
  proof (induction xs)
    case Nil
    show ?case by simp
  next
    case (Cons x xs)
    with sub [of xs] show ?case
      by (cases "spec_decay_tick x") (auto simp: u)
  qed
  with assms show ?thesis by (simp add: uids_unique_def invokeDecay_eq)
qed

lemma addSpecificItem_uids:
  assumes "uids_unique items" "uid it \<notin> set (map uid items)"
      and "addSpecificItem cfg it items options = Inr items'"
  shows "uids_unique items'"
  using assms
  by (auto simp: addSpecificItem_def cloneItems_def Let_def uids_unique_def split: if_splits)

section \<open>Lemmas about the store\<close>

lemma unchanged_refl: "unchanged s s"
  by (simp add: unchanged_def)

lemma unchanged_trans: "unchanged s s1 \<Longrightarrow> unchanged s1 s2 \<Longrightarrow> unchanged s s2"
  by (auto simp: unchanged_def)

lemma new_nested_facts:
  assumes "new_nested v s = (r, s')"
  shows "unchanged s s'" "r = next_ref s" "next_ref s' = Suc (next_ref s)"
    "arrays s' = arrays s" "objects s' = objects s"
  using assms by (auto simp: new_nested_def unchanged_def)

lemma new_object_facts:
  assumes "new_object x s = (r, s')"
  shows "unchanged s s'" "r = next_ref s" "next_ref s' = Suc (next_ref s)"
    "arrays s' = arrays s" "nested s' = nested s" "objects s' = (objects s)(r := x)"
  using assms by (auto simp: new_object_def unchanged_def)

lemma new_array_facts:
  assumes "new_array rs s = (r, s')"
  shows "unchanged s s'" "r = next_ref s" "next_ref s' = Suc (next_ref s)"
    "arrays s' = (arrays s)(r := rs)" "nested s' = nested s" "objects s' = objects s"
  using assms by (auto simp: new_array_def unchanged_def)

lemma clone_nested_facts:
  assumes "clone_nested p s = (p', s')"
  shows "unchanged s s'" "arrays s' = arrays s" "objects s' = objects s"
    "\<forall>q \<in> set_option p'. next_ref s \<le> q"
  using assms
  by (auto simp: clone_nested_def new_nested_def unchanged_def split: option.splits)

lemma new_nested_opt_facts:
  assumes "new_nested_opt v s = (p', s')"
  shows "unchanged s s'" "arrays s' = arrays s" "objects s' = objects s"
    "\<forall>q \<in> set_option p'. next_ref s \<le> q"
  using assms
  by (auto simp: new_nested_opt_def new_nested_def unchanged_def split: option.splits)

lemma objectData_facts:
  assumes "objectData r s = (r', s')"
  shows "unchanged s s'" "arrays s' = arrays s" "next_ref s \<le> r'" "r' < next_ref s'"
    "\<forall>p \<in> nested_refs (objects s' r'). next_ref s \<le> p"
proof -
  let ?x = "objects s r"
  obtain pos s1 where c1: "clone_nested (position ?x) s = (pos, s1)"
    by (cases "clone_nested (position ?x) s")
  obtain rul s2 where c2: "clone_nested (rules ?x) s1 = (rul, s2)"
    by (cases "clone_nested (rules ?x) s1")
  obtain dat s3 where c3: "clone_nested (data ?x) s2 = (dat, s3)"
    by (cases "clone_nested (data ?x) s2")
  let ?y = "?x\<lparr>position := pos, rules := rul, data := dat\<rparr>"
  from assms c1 c2 c3 have n: "new_object ?y s3 = (r', s')"
    by (simp add: objectData_def Let_def)
  note f1 = clone_nested_facts [OF c1] and f2 = clone_nested_facts [OF c2]
    and f3 = clone_nested_facts [OF c3] and fn = new_object_facts [OF n]
  from f1(1) f2(1) f3(1) fn(1) show "unchanged s s'"
    by (blast intro: unchanged_trans)
  from f1(2) f2(2) f3(2) fn(4) show "arrays s' = arrays s" by simp
  have le: "next_ref s \<le> next_ref s1" "next_ref s1 \<le> next_ref s2" "next_ref s2 \<le> next_ref s3"
    using f1(1) f2(1) f3(1) by (simp_all add: unchanged_def)
  with fn(2,3) show "next_ref s \<le> r'" "r' < next_ref s'" by simp_all
  from fn(6) have "objects s' r' = ?y" by simp
  with f1(4) f2(4) f3(4) le show "\<forall>p \<in> nested_refs (objects s' r'). next_ref s \<le> p"
    by (auto simp: nested_refs_def)
qed

lemma arrayData_elements_facts:
  "arrayData_elements rs s = (rs', s') \<Longrightarrow>
     unchanged s s' \<and> arrays s' = arrays s \<and> length rs' = length rs
     \<and> (\<forall>r \<in> set rs'. next_ref s \<le> r \<and> r < next_ref s'
            \<and> (\<forall>p \<in> nested_refs (objects s' r). next_ref s \<le> p))"
proof (induction rs arbitrary: s rs' s')
  case Nil
  then show ?case by (simp add: unchanged_refl)
next
  case (Cons r rs)
  obtain r1 s1 where o: "objectData r s = (r1, s1)"
    by (cases "objectData r s")
  obtain rs2 s2 where a: "arrayData_elements rs s1 = (rs2, s2)"
    by (cases "arrayData_elements rs s1")
  from Cons.prems o a have res: "rs' = r1 # rs2" "s' = s2"
    by simp_all
  note fo = objectData_facts [OF o]
  from Cons.IH [OF a] have u2: "unchanged s1 s2" and ar: "arrays s2 = arrays s1"
    and len: "length rs2 = length rs"
    and rest: "\<forall>r \<in> set rs2. next_ref s1 \<le> r \<and> r < next_ref s2
            \<and> (\<forall>p \<in> nested_refs (objects s2 r). next_ref s1 \<le> p)"
    by simp_all
  from fo(1) have le: "next_ref s \<le> next_ref s1" by (simp add: unchanged_def)
  from u2 fo(4) have same: "objects s2 r1 = objects s1 r1" and le2: "next_ref s1 \<le> next_ref s2"
    by (simp_all add: unchanged_def)
  have first: "next_ref s \<le> r1 \<and> r1 < next_ref s2
            \<and> (\<forall>p \<in> nested_refs (objects s2 r1). next_ref s \<le> p)"
    using fo(3,4,5) same le2 by simp
  have others: "\<forall>r \<in> set rs2. next_ref s \<le> r \<and> r < next_ref s2
            \<and> (\<forall>p \<in> nested_refs (objects s2 r). next_ref s \<le> p)"
    using rest le by fastforce
  from fo(1) u2 have "unchanged s s2" by (rule unchanged_trans)
  with fo(2) ar len first others res show ?case by simp
qed

lemma cloneItems_st_owned:
  assumes "cloneItems_st a0 s = (a, s')"
  shows "owned P s s' a" and "length (arrays s' a) = length (arrays s a0)"
proof -
  obtain rs s1 where e: "arrayData_elements (arrays s a0) s = (rs, s1)"
    by (cases "arrayData_elements (arrays s a0) s")
  with assms have n: "new_array rs s1 = (a, s')"
    by (simp add: cloneItems_st_def)
  note fe = arrayData_elements_facts [OF e] and fn = new_array_facts [OF n]
  from fe fn(1) have u: "unchanged s s'" by (blast intro: unchanged_trans)
  from fe have le: "next_ref s \<le> next_ref s1" by (simp add: unchanged_def)
  from fn(4) have arr: "arrays s' a = rs" by simp
  from fe fn(3,6) have "\<forall>r \<in> set rs. next_ref s \<le> r \<and> r < next_ref s'
            \<and> (\<forall>p \<in> nested_refs (objects s' r). next_ref s \<le> p \<or> p \<in> P)"
    by auto
  with u le fn(2,3) arr show "owned P s s' a"
    by (simp add: owned_def)
  from arr fe show "length (arrays s' a) = length (arrays s a0)" by simp
qed

lemma owned_unchanged:
  assumes "owned P s0 s a" "unchanged s s'"
  shows "owned P s0 s' a"
proof -
  from assms have a: "arrays s' a = arrays s a"
    by (simp add: owned_def unchanged_def)
  from assms have "\<forall>r \<in> set (arrays s a). objects s' r = objects s r"
    by (simp add: owned_def unchanged_def)
  with assms a unchanged_trans [of s0 s s'] show ?thesis
    by (auto simp: owned_def unchanged_def)
qed

lemma owned_earlier:
  assumes "unchanged s0 s1" "owned P s1 s a"
  shows "owned P s0 s a"
  using assms unchanged_trans [of s0 s1 s]
  by (fastforce simp: owned_def unchanged_def)

lemma owned_set_object:
  assumes o: "owned P s0 s a" and r: "r \<in> set (arrays s a)"
      and f: "\<forall>p \<in> nested_refs (f (objects s r)). p \<in> nested_refs (objects s r) \<or> next_ref s0 \<le> p \<or> p \<in> P"
  shows "owned P s0 (set_object r f s) a"
proof -
  from o r have ge: "next_ref s0 \<le> r" by (simp add: owned_def)
  from o ge have u: "unchanged s0 (set_object r f s)"
    by (auto simp: owned_def unchanged_def set_object_def)
  have "\<forall>p \<in> nested_refs (f (objects s r)). next_ref s0 \<le> p \<or> p \<in> P"
    using o r f by (fastforce simp: owned_def)
  with o u show ?thesis
    by (auto simp: owned_def set_object_def)
qed

lemma owned_modify:
  assumes "owned P s0 s a" "i < length (arrays s a)"
      and "\<forall>p \<in> nested_refs (f (item_at s a i)). p \<in> nested_refs (item_at s a i) \<or> next_ref s0 \<le> p \<or> p \<in> P"
  shows "owned P s0 (modify a i f s) a"
  using assms unfolding modify_def item_at_def
  by (intro owned_set_object) simp_all

lemma owned_modify_scalar:
  assumes "owned P s0 s a" "i < length (arrays s a)"
      and "\<And>x. nested_refs (f x) = nested_refs x"
  shows "owned P s0 (modify a i f s) a"
  using assms by (intro owned_modify) simp_all

lemma owned_splice:
  assumes "owned P s0 s a"
  shows "owned P s0 (splice_st a i s) a"
proof -
  have "set (splice1 (arrays s a) i) \<subseteq> set (arrays s a)"
    by (auto simp: splice1_def dest: in_set_takeD in_set_dropD)
  with assms show ?thesis
    by (auto simp: owned_def splice_st_def unchanged_def)
qed

lemma owned_push:
  assumes o: "owned P s0 s a" and x: "\<forall>p \<in> nested_refs x. next_ref s0 \<le> p \<or> p \<in> P"
  shows "owned P s0 (push_st a x s) a"
proof -
  let ?r = "next_ref s"
  have eq: "push_st a x s = s\<lparr>objects := (objects s)(?r := x), next_ref := Suc ?r,
        arrays := (arrays s)(a := arrays s a @ [?r])\<rparr>"
    by (simp add: push_st_def new_object_def)
  from o have le: "next_ref s0 \<le> ?r" and a: "next_ref s0 \<le> a" "a < ?r"
    and old: "\<forall>r \<in> set (arrays s a). next_ref s0 \<le> r \<and> r < ?r
            \<and> (\<forall>p \<in> nested_refs (objects s r). next_ref s0 \<le> p \<or> p \<in> P)"
    and u: "unchanged s0 s"
    by (simp_all add: owned_def unchanged_def)
  from u le a have "unchanged s0 (push_st a x s)"
    by (auto simp: eq unchanged_def)
  with le a old x show ?thesis
    by (auto simp: eq owned_def)
qed

lemma getBaseItem_st_facts:
  assumes "getBaseItem_st cat i s = (bo, s')"
  shows "unchanged s s'"
    and "\<And>b. bo = Some b \<Longrightarrow> \<forall>p \<in> set_option (position b) \<union> set_option (rules b). next_ref s \<le> p"
proof -
  show "unchanged s s'"
  proof (cases "cat i")
    case None
    with assms show ?thesis by (simp add: getBaseItem_st_def unchanged_refl)
  next
    case (Some e)
    obtain pos s1 where c1: "new_nested_opt (position e) s = (pos, s1)"
      by (cases "new_nested_opt (position e) s")
    obtain rul s2 where c2: "new_nested_opt (rules e) s1 = (rul, s2)"
      by (cases "new_nested_opt (rules e) s1")
    from assms Some c1 c2 have "s' = s2" by (simp add: getBaseItem_st_def)
    with new_nested_opt_facts(1) [OF c1] new_nested_opt_facts(1) [OF c2] show ?thesis
      by (blast intro: unchanged_trans)
  qed
  fix b assume b: "bo = Some b"
  show "\<forall>p \<in> set_option (position b) \<union> set_option (rules b). next_ref s \<le> p"
  proof (cases "cat i")
    case None
    with assms b show ?thesis by (simp add: getBaseItem_st_def)
  next
    case (Some e)
    obtain pos s1 where c1: "new_nested_opt (position e) s = (pos, s1)"
      by (cases "new_nested_opt (position e) s")
    obtain rul s2 where c2: "new_nested_opt (rules e) s1 = (rul, s2)"
      by (cases "new_nested_opt (rules e) s1")
    from assms Some c1 c2 b have pr: "position b = pos" "rules b = rul"
      by (auto simp: getBaseItem_st_def)
    from new_nested_opt_facts(1) [OF c1] have "next_ref s \<le> next_ref s1"
      by (simp add: unchanged_def)
    with new_nested_opt_facts(4) [OF c1] new_nested_opt_facts(4) [OF c2] pr show ?thesis
      by auto
  qed
qed

lemma findIndex_items_of:
  "findIndex Q (items_of s a) = Some i \<Longrightarrow> i < length (arrays s a)"
  using findIndex_Some [of Q "items_of s a" i] by (simp add: items_of_def)

lemma owned_imp_unchanged: "owned P s0 s a \<Longrightarrow> unchanged s0 s"
  by (simp add: owned_def)

lemma nested_refs_quantity [simp]: "nested_refs (x\<lparr>quantity := q\<rparr>) = nested_refs x"
  by (simp add: nested_refs_def)

lemma nested_refs_decay [simp]: "nested_refs (x\<lparr>decay := d\<rparr>) = nested_refs x"
  by (simp add: nested_refs_def)

lemma nested_refs_uid [simp]: "nested_refs (x\<lparr>uid := u\<rparr>) = nested_refs x"
  by (simp add: nested_refs_def)

lemma nested_refs_object_assign:
  "nested_refs (object_assign x patch) \<subseteq> nested_refs x \<union> patch_refs patch"
  by (auto simp: nested_refs_def patch_refs_def object_assign_def assign_opt_def
        split: option.splits)

lemma nested_refs_newItem:
  "nested_refs (newItem b n u options)
     = set_option (position b) \<union> set_option (rules b) \<union> set_option (opt_data options)"
  by (simp add: nested_refs_def newItem_def)

lemma remove_st_owned:
  assumes "remove_st u qty a0 s = (res, s')"
  shows "unchanged s s' \<and> (\<forall>a. res = Inr a \<longrightarrow> owned P s s' a)"
proof (cases "findIndex (\<lambda>item. uid item = u) (items_of s a0)")
  case None
  with assms show ?thesis by (auto simp: remove_st_def unchanged_refl)
next
  case (Some i)
  from findIndex_items_of [OF Some] have i: "i < length (arrays s a0)" .
  obtain a s1 where c: "cloneItems_st a0 s = (a, s1)"
    by (cases "cloneItems_st a0 s")
  note o = cloneItems_st_owned(1) [OF c, of P]
  from cloneItems_st_owned(2) [OF c] i have i1: "i < length (arrays s1 a)" by simp
  have o1: "owned P s (splice_st a i s1) a"
    using o by (rule owned_splice)
  have o2: "owned P s (modify a i (\<lambda>x. x\<lparr>quantity := quantity x - qty\<rparr>) s1) a"
    using o i1 by (rule owned_modify_scalar) simp
  from assms Some c o1 o2 show ?thesis
    by (auto simp: remove_st_def unchanged_refl dest: owned_imp_unchanged split: if_splits)
qed

lemma removeQuantityFrom_st_owned:
  assumes "removeQuantityFrom_st u qty a0 s = (res, s')"
  shows "unchanged s s' \<and> (\<forall>a. res = Inr a \<longrightarrow> owned P s s' a)"
proof -
  obtain a s1 where c: "cloneItems_st a0 s = (a, s1)"
    by (cases "cloneItems_st a0 s")
  note o = cloneItems_st_owned(1) [OF c, of P]
  show ?thesis
  proof (cases "findIndex (\<lambda>x. uid x = u) (items_of s1 a)")
    case None
    with assms c o show ?thesis
      by (auto simp: removeQuantityFrom_st_def dest: owned_imp_unchanged)
  next
    case (Some i)
    from findIndex_items_of [OF Some] have i: "i < length (arrays s1 a)" .
    have o1: "owned P s (splice_st a i s1) a"
      using o by (rule owned_splice)
    have o2: "owned P s (modify a i (\<lambda>x. x\<lparr>quantity := quantity x - qty\<rparr>) s1) a"
      using o i by (rule owned_modify_scalar) simp
    from assms Some c o o1 o2 show ?thesis
      by (auto simp: removeQuantityFrom_st_def dest: owned_imp_unchanged split: if_splits)
  qed
qed

lemma removeAt_st_owned:
  assumes "removeAt_st u a0 s = (res, s')"
  shows "unchanged s s' \<and> (\<forall>a removed. res = Inr (a, removed) \<longrightarrow> owned P s s' a)"
proof -
  obtain a s1 where c: "cloneItems_st a0 s = (a, s1)"
    by (cases "cloneItems_st a0 s")
  note o = cloneItems_st_owned(1) [OF c, of P]
  show ?thesis
  proof (cases "findIndex (\<lambda>x. uid x = u) (items_of s1 a)")
    case None
    with assms c o show ?thesis
      by (auto simp: removeAt_st_def dest: owned_imp_unchanged)
  next
    case (Some i)
    obtain rm s2 where n: "new_array [arrays s1 a ! i] s1 = (rm, s2)"
      by (cases "new_array [arrays s1 a ! i] s1")
    from owned_unchanged [OF o new_array_facts(1) [OF n]] have "owned P s s2 a" .
    then have "owned P s (splice_st a i s2) a" by (rule owned_splice)
    with assms Some c n show ?thesis
      by (auto simp: removeAt_st_def dest: owned_imp_unchanged)
  qed
qed

lemma addSpecificItem_st_owned:
  assumes "addSpecificItem_st cfg it a0 options s = (res, s')"
  shows "unchanged s s' \<and> (\<forall>a. res = Inr a \<longrightarrow> owned (nested_refs it) s s' a)"
proof -
  obtain a s1 where c: "cloneItems_st a0 s = (a, s1)"
    by (cases "cloneItems_st a0 s")
  note o = cloneItems_st_owned(1) [OF c, of "nested_refs it"]
  have "owned (nested_refs it) s (push_st a it s1) a"
    using o by (rule owned_push) simp
  with assms c show ?thesis
    by (auto simp: addSpecificItem_st_def Let_def dest: owned_imp_unchanged split: if_splits)
qed

lemma update_st_owned:
  assumes "update_st u patch a0 s = (res, s')"
  shows "unchanged s s' \<and> (\<forall>a. res = Inr a \<longrightarrow> owned (patch_refs patch) s s' a)"
proof -
  obtain a s1 where c: "cloneItems_st a0 s = (a, s1)"
    by (cases "cloneItems_st a0 s")
  note o = cloneItems_st_owned(1) [OF c, of "patch_refs patch"]
  show ?thesis
  proof (cases "findIndex (\<lambda>x. uid x = u) (items_of s1 a)")
    case None
    with assms c o show ?thesis
      by (auto simp: update_st_def dest: owned_imp_unchanged)
  next
    case (Some i)
    from findIndex_items_of [OF Some] have i: "i < length (arrays s1 a)" .
    have o1: "owned (patch_refs patch) s (splice_st a i s1) a"
      using o by (rule owned_splice)
    have o2: "owned (patch_refs patch) s (modify a i (\<lambda>x. object_assign x patch) s1) a"
      using o i nested_refs_object_assign [of "item_at s1 a i" patch]
      by (intro owned_modify) auto
    from assms Some c o1 o2 show ?thesis
      by (auto simp: update_st_def dest: owned_imp_unchanged split: option.splits if_splits)
  qed
qed

lemma arrays_set_object [simp]: "arrays (set_object r f s) = arrays s"
  by (simp add: set_object_def)

lemma arrays_modify [simp]: "arrays (modify a i f s) = arrays s"
  by (simp add: modify_def)

lemma split_st_owned:
  assumes "split_st cat cfg g u amount a0 options s = (res, s')"
  shows "unchanged s s' \<and> (\<forall>a. res = Inr a \<longrightarrow> owned P s s' a)"
proof -
  obtain a s1 where c: "cloneItems_st a0 s = (a, s1)"
    by (cases "cloneItems_st a0 s")
  note o = cloneItems_st_owned(1) [OF c, of P]
  show ?thesis
  proof (cases "findIndex (\<lambda>x. uid x = u) (items_of s1 a)")
    case None
    with assms c o show ?thesis
      by (auto simp: split_st_def dest: owned_imp_unchanged)
  next
    case (Some i)
    from findIndex_items_of [OF Some] have i: "i < length (arrays s1 a)" .
    obtain bo s2 where b: "getBaseItem_st cat (item_id (item_at s1 a i)) s1 = (bo, s2)"
      by (cases "getBaseItem_st cat (item_id (item_at s1 a i)) s1")
    note u2 = getBaseItem_st_facts(1) [OF b]
    from owned_unchanged [OF o u2] have o2: "owned P s s2 a" .
    from o u2 i have i2: "i < length (arrays s2 a)"
      by (simp add: owned_def unchanged_def)
    let ?s3 = "modify a i (\<lambda>x. x\<lparr>quantity := quantity x - amount\<rparr>) s2"
    have o3: "owned P s ?s3 a"
      using o2 i2 by (rule owned_modify_scalar) simp
    obtain cl s4 where d: "objectData (arrays ?s3 a ! i) ?s3 = (cl, s4)"
      by (cases "objectData (arrays ?s3 a ! i) ?s3")
    note fd = objectData_facts [OF d]
    from owned_unchanged [OF o3 fd(1)] have o4: "owned P s s4 a" .
    from o3 have "next_ref s \<le> next_ref ?s3" by (simp add: owned_def unchanged_def)
    with fd(5) have "\<forall>p \<in> nested_refs ((objects s4 cl)\<lparr>uid := g 0, quantity := amount\<rparr>).
        next_ref s \<le> p \<or> p \<in> P"
      by auto
    with o4 have o5: "owned P s (push_st a ((objects s4 cl)\<lparr>uid := g 0, quantity := amount\<rparr>) s4) a"
      by (rule owned_push)
    show ?thesis
    proof (cases bo)
      case None
      with assms c Some b o2 show ?thesis
        by (auto simp: split_st_def dest: owned_imp_unchanged)
    next
      case (Some baseItem)
      with assms c \<open>findIndex (\<lambda>x. uid x = u) (items_of s1 a) = Some i\<close> b d o2 o5 show ?thesis
        by (auto simp: split_st_def Let_def dest: owned_imp_unchanged split: if_splits)
    qed
  qed
qed

lemma stack_st_owned:
  assumes "stack_st cat uidToStackOn uidToStack a0 s = (res, s')"
  shows "unchanged s s' \<and> (\<forall>a. res = Inr a \<longrightarrow> owned P s s' a)"
proof -
  obtain a s1 where c: "cloneItems_st a0 s = (a, s1)"
    by (cases "cloneItems_st a0 s")
  note o = cloneItems_st_owned(1) [OF c, of P]
  show ?thesis
  proof (cases "findIndex (\<lambda>x. uid x = uidToStackOn) (items_of s1 a)")
    case None
    with assms c o show ?thesis
      by (auto simp: stack_st_def dest: owned_imp_unchanged)
  next
    case t: (Some t)
    show ?thesis
    proof (cases "findIndex (\<lambda>x. uid x = uidToStack) (items_of s1 a)")
      case None
      with assms c o t show ?thesis
        by (auto simp: stack_st_def dest: owned_imp_unchanged)
    next
      case k: (Some k)
      from findIndex_items_of [OF t] findIndex_items_of [OF k]
      have tl: "t < length (arrays s1 a)" and kl: "k < length (arrays s1 a)" .
      obtain bo s2 where b: "getBaseItem_st cat (item_id (item_at s1 a k)) s1 = (bo, s2)"
        by (cases "getBaseItem_st cat (item_id (item_at s1 a k)) s1")
      note u2 = getBaseItem_st_facts(1) [OF b]
      from owned_unchanged [OF o u2] have o2: "owned P s s2 a" .
      from o u2 have "arrays s2 a = arrays s1 a"
        by (simp add: owned_def unchanged_def)
      with tl kl have tl2: "t < length (arrays s2 a)" and kl2: "k < length (arrays s2 a)"
        by simp_all
      let ?d = "maxStack (item_at s2 a t) - quantity (item_at s2 a t)"
      let ?s3 = "modify a t (\<lambda>x. x\<lparr>quantity := quantity x + ?d\<rparr>) s2"
      have o3: "owned P s ?s3 a"
        using o2 tl2 by (rule owned_modify_scalar) simp
      from kl2 have kl3: "k < length (arrays ?s3 a)" by simp
      have o4: "owned P s (modify a k (\<lambda>x. x\<lparr>quantity := quantity x - ?d\<rparr>) ?s3) a"
        using o3 kl3 by (rule owned_modify_scalar) simp
      have o5: "owned P s (splice_st a k ?s3) a"
        using o3 by (rule owned_splice)
      from assms c t k b o o2 o4 o5 show ?thesis
        by (auto simp: stack_st_def Let_def dest: owned_imp_unchanged
              split: option.splits if_splits)
    qed
  qed
qed

lemma invokeDecay_loop_st_owned:
  "owned P s0 s a \<Longrightarrow> i \<le> length (arrays s a) \<Longrightarrow> owned P s0 (invokeDecay_loop_st a i s) a"
proof (induction i arbitrary: s)
  case 0
  then show ?case by simp
next
  case (Suc i)
  from Suc.prems have i: "i < length (arrays s a)" by simp
  show ?case
  proof (cases "decay (item_at s a i)")
    case None
    with Suc.IH [of s] Suc.prems i show ?thesis by simp
  next
    case (Some d)
    let ?s1 = "modify a i (\<lambda>x. x\<lparr>decay := Some (d - 1)\<rparr>) s"
    have o1: "owned P s0 ?s1 a"
      using Suc.prems(1) i by (rule owned_modify_scalar) simp
    have l1: "i \<le> length (arrays ?s1 a)" using i by simp
    have o2: "owned P s0 (splice_st a i ?s1) a"
      using o1 by (rule owned_splice)
    have l2: "i \<le> length (arrays (splice_st a i ?s1) a)"
      using i by (simp add: splice_st_def splice1_def)
    from Some Suc.IH [OF o1 l1] Suc.IH [OF o2 l2] show ?thesis
      by (simp add: Let_def)
  qed
qed

lemma invokeDecay_st_owned:
  assumes "invokeDecay_st a0 s = (a, s')"
  shows "owned P s s' a"
proof -
  obtain a1 s1 where c: "cloneItems_st a0 s = (a1, s1)"
    by (cases "cloneItems_st a0 s")
  note o = cloneItems_st_owned(1) [OF c, of P]
  from invokeDecay_loop_st_owned [OF o, of "length (arrays s1 a1)"] assms c show ?thesis
    by (auto simp: invokeDecay_st_def)
qed

lemma handleItemStacking_loop_st_owned:
  "owned P s0 s a \<Longrightarrow> set rs \<subseteq> set (arrays s a)
     \<Longrightarrow> handleItemStacking_loop_st b rs q s = (q', s')
     \<Longrightarrow> owned P s0 s' a"
proof (induction rs arbitrary: q s)
  case Nil
  then show ?case by simp
next
  case (Cons r rs)
  from Cons.prems(2) have r: "r \<in> set (arrays s a)" and rs: "set rs \<subseteq> set (arrays s a)"
    by simp_all
  show ?case
  proof (cases "item_id (objects s r) \<noteq> item_id b \<or> quantity (objects s r) = maxStack b")
    case True
    with Cons.prems(3) have "handleItemStacking_loop_st b rs q s = (q', s')" by simp
    from Cons.IH [OF Cons.prems(1) rs this] show ?thesis .
  next
    case False
    show ?thesis
    proof (cases "q \<le> 0")
      case True
      with False Cons.prems show ?thesis by simp
    next
      case pos: False
      let ?n = "min (maxStack b - quantity (objects s r)) q"
      let ?s1 = "set_object r (\<lambda>x. x\<lparr>quantity := quantity x + ?n\<rparr>) s"
      have o1: "owned P s0 ?s1 a"
        using Cons.prems(1) r by (rule owned_set_object) simp
      from rs have rs1: "set rs \<subseteq> set (arrays ?s1 a)" by simp
      from False pos Cons.prems(3)
      have "handleItemStacking_loop_st b rs (q - ?n) ?s1 = (q', s')"
        by (simp add: Let_def)
      from Cons.IH [OF o1 rs1 this] show ?thesis .
    qed
  qed
qed

lemma addNewItemStacks_loop_st_owned:
  assumes run: "addNewItemStacks_loop_st g b options a q k s = Some s'"
  shows "owned P s0 s a \<longrightarrow>
         (\<forall>p \<in> set_option (position b) \<union> set_option (rules b) \<union> set_option (opt_data options).
             next_ref s0 \<le> p \<or> p \<in> P)
         \<longrightarrow> owned P s0 s' a"
proof (rule addNewItemStacks_loop_st.raw_induct
         [where P = "\<lambda>g b options a q k s s'. owned P s0 s a \<longrightarrow>
         (\<forall>p \<in> set_option (position b) \<union> set_option (rules b) \<union> set_option (opt_data options).
             next_ref s0 \<le> p \<or> p \<in> P)
         \<longrightarrow> owned P s0 s' a", OF _ run])
  fix loop :: "uidgen \<Rightarrow> ref base_item \<Rightarrow> ref add_options \<Rightarrow> ref \<Rightarrow> int \<Rightarrow> nat \<Rightarrow> store \<Rightarrow> store option"
  fix g b options a q k s s'
  assume IH: "\<And>g b options a q k s s'. loop g b options a q k s = Some s' \<Longrightarrow>
      owned P s0 s a \<longrightarrow>
         (\<forall>p \<in> set_option (position b) \<union> set_option (rules b) \<union> set_option (opt_data options).
             next_ref s0 \<le> p \<or> p \<in> P)
         \<longrightarrow> owned P s0 s' a"
  assume step: "(if 0 < q
      then loop g b options a (q - min q (maxStack b)) (Suc k)
             (push_st a (newItem b (min q (maxStack b)) (g k) options) s)
      else Some s) = Some s'"
  show "owned P s0 s a \<longrightarrow>
         (\<forall>p \<in> set_option (position b) \<union> set_option (rules b) \<union> set_option (opt_data options).
             next_ref s0 \<le> p \<or> p \<in> P)
         \<longrightarrow> owned P s0 s' a"
  proof (intro impI)
    assume o: "owned P s0 s a"
      and fresh: "\<forall>p \<in> set_option (position b) \<union> set_option (rules b) \<union> set_option (opt_data options).
             next_ref s0 \<le> p \<or> p \<in> P"
    show "owned P s0 s' a"
    proof (cases "0 < q")
      case False
      with step o show ?thesis by simp
    next
      case True
      let ?x = "newItem b (min q (maxStack b)) (g k) options"
      from fresh have "\<forall>p \<in> nested_refs ?x. next_ref s0 \<le> p \<or> p \<in> P"
        by (simp add: nested_refs_newItem)
      with o have o1: "owned P s0 (push_st a ?x s) a" by (rule owned_push)
      from True step have "loop g b options a (q - min q (maxStack b)) (Suc k) (push_st a ?x s) = Some s'"
        by simp
      from IH [OF this] o1 fresh show ?thesis by blast
    qed
  qed
qed

lemma addNewItemStacks_st_owned:
  assumes "addNewItemStacks_st cfg g a b q options s = Some (res, s')"
      and "owned P s0 s a"
      and "\<forall>p \<in> set_option (position b) \<union> set_option (rules b) \<union> set_option (opt_data options).
             next_ref s0 \<le> p \<or> p \<in> P"
  shows "owned P s0 s' a \<and> (res = Inr a \<or> res = Inl '''')"
proof -
  from assms(1) have l: "addNewItemStacks_loop_st g b options a q 0 s = Some s'"
    and r: "res = Inr a \<or> res = Inl ''''"
    by (auto simp: addNewItemStacks_st_def split: option.splits if_splits)
  from addNewItemStacks_loop_st_owned [OF l, of P s0] assms(2,3) r show ?thesis by blast
qed

lemma add_st_owned:
  assumes "add_st cat cfg g i q a0 options s = Some (res, s')"
  shows "unchanged s s' \<and> (\<forall>a. res = Inr a \<longrightarrow> owned (set_option (opt_data options)) s s' a)"
proof -
  let ?P = "set_option (opt_data options)"
  obtain bo s1 where b: "getBaseItem_st cat i s = (bo, s1)"
    by (cases "getBaseItem_st cat i s")
  note u1 = getBaseItem_st_facts(1) [OF b]
  show ?thesis
  proof (cases bo)
    case None
    with assms b u1 show ?thesis by (auto simp: add_st_def)
  next
    case (Some baseItem)
    obtain a s2 where c: "cloneItems_st a0 s1 = (a, s2)"
      by (cases "cloneItems_st a0 s1")
    from owned_earlier [OF u1 cloneItems_st_owned(1) [OF c, of ?P]] have o2: "owned ?P s s2 a" .
    from getBaseItem_st_facts(2) [OF b Some]
    have fresh: "\<forall>p \<in> set_option (position baseItem) \<union> set_option (rules baseItem)
                    \<union> set_option (opt_data options). next_ref s \<le> p \<or> p \<in> ?P"
      by auto
    have new: "owned ?P s s' a \<and> (res = Inr a \<or> res = Inl '''')"
      if "addNewItemStacks_st cfg g a baseItem n options t = Some (res, s')" "owned ?P s t a" for n t
      using that fresh by (intro addNewItemStacks_st_owned)
    have "owned ?P s s' a \<and> (res = Inr a \<or> res = Inl '''')"
    proof (cases "maxStack baseItem \<le> 1")
      case True
      with assms b Some c have "addNewItemStacks_st cfg g a baseItem q options s2 = Some (res, s')"
        by (simp add: add_st_def handleItemStacking_st_def)
      from new [OF this o2] show ?thesis .
    next
      case False
      obtain q' s3 where h: "handleItemStacking_loop_st baseItem (arrays s2 a) q s2 = (q', s3)"
        by (cases "handleItemStacking_loop_st baseItem (arrays s2 a) q s2")
      from handleItemStacking_loop_st_owned [OF o2 _ h] have o3: "owned ?P s s3 a" by simp
      show ?thesis
      proof (cases "0 < q'")
        case True
        with assms b Some c False h
        have "addNewItemStacks_st cfg g a baseItem q' options s3 = Some (res, s')"
          by (simp add: add_st_def handleItemStacking_st_def)
        from new [OF this o3] show ?thesis .
      next
        case stop: False
        with assms b Some c False h o3 show ?thesis
          by (simp add: add_st_def handleItemStacking_st_def)
      qed
    qed
    then show ?thesis by (auto dest: owned_imp_unchanged)
  qed
qed

section \<open>The store model computes what the value model computes\<close>

lemma resolve_fields [simp]:
  "item_id (resolve s x) = item_id x" "uid (resolve s x) = uid x"
  "quantity (resolve s x) = quantity x" "maxStack (resolve s x) = maxStack x"
  "weight (resolve s x) = weight x" "width (resolve s x) = width x"
  "height (resolve s x) = height x" "decay (resolve s x) = decay x"
  by (simp_all add: resolve_def)

lemma resolve_quantity [simp]: "resolve s (x\<lparr>quantity := q\<rparr>) = (resolve s x)\<lparr>quantity := q\<rparr>"
  by (simp add: resolve_def)

lemma resolve_decay [simp]: "resolve s (x\<lparr>decay := d\<rparr>) = (resolve s x)\<lparr>decay := d\<rparr>"
  by (simp add: resolve_def)

lemma resolve_uid [simp]: "resolve s (x\<lparr>uid := u\<rparr>) = (resolve s x)\<lparr>uid := u\<rparr>"
  by (simp add: resolve_def)

lemma resolve_object_assign:
  "resolve s (object_assign x p) = object_assign (resolve s x) (resolve_patch s p)"
  by (simp add: resolve_def object_assign_def resolve_patch_def assign_req_def assign_opt_def
        split: option.splits)

lemma resolve_newItem:
  "resolve s (newItem b n u options) = newItem (resolve_base s b) n u (resolve_options s options)"
  by (simp add: resolve_def newItem_def resolve_base_def resolve_options_def)

lemma resolve_cong:
  assumes "\<forall>p \<in> nested_refs x. nested s' p = nested s p"
  shows "resolve s' x = resolve s x"
proof -
  have eq: "map_option (nested s') q = map_option (nested s) q"
    if "set_option q \<subseteq> nested_refs x" for q
    using that assms by (cases q) simp_all
  have "map_option (nested s') (position x) = map_option (nested s) (position x)"
    and "map_option (nested s') (rules x) = map_option (nested s) (rules x)"
    and "map_option (nested s') (data x) = map_option (nested s) (data x)"
    by (rule eq, auto simp: nested_refs_def)+
  then show ?thesis by (simp add: resolve_def)
qed

lemma findIndex_map: "findIndex Q (map f xs) = findIndex (\<lambda>x. Q (f x)) xs"
  by (induction xs) simp_all

lemma findIndex_snapshot:
  "findIndex (\<lambda>x. uid x = u) (snapshot s a) = findIndex (\<lambda>x. uid x = u) (items_of s a)"
  by (simp add: snapshot_def findIndex_map)

lemma foldl_map_fun: "foldl f z (map h xs) = foldl (\<lambda>acc x. f acc (h x)) z xs"
  by (induction xs arbitrary: z) simp_all

lemma verify_resolve:
  "verifyStackAndWeight cfg (map (resolve s) xs) (resolve_options s' options)
     = verifyStackAndWeight cfg xs options"
proof -
  have w: "isWeightExceeded (map (resolve s) xs) m = isWeightExceeded xs m" for m
    by (simp add: isWeightExceeded_def foldl_map_fun)
  have c: "foldl (\<lambda>sum item. sum + width item * height item) 0 (map (resolve s) xs)
      = foldl (\<lambda>sum item. sum + width item * height item) 0 xs"
    by (simp add: foldl_map_fun)
  show ?thesis
    unfolding verifyStackAndWeight_def w c by (simp add: resolve_options_def)
qed

lemma snapshot_nth:
  "i < length (arrays s a) \<Longrightarrow> snapshot s a ! i = resolve s (item_at s a i)"
  by (simp add: snapshot_def items_of_def item_at_def)

lemma length_snapshot [simp]: "length (snapshot s a) = length (arrays s a)"
  by (simp add: snapshot_def items_of_def)

lemma allocated_unchanged:
  assumes al: "allocated s a" and u: "unchanged s s'"
  shows "allocated s' a" "arrays s' a = arrays s a" "items_of s' a = items_of s a"
    "snapshot s' a = snapshot s a"
proof -
  from al u show arr: "arrays s' a = arrays s a"
    by (simp add: allocated_def unchanged_def)
  from al u have obj: "\<forall>r \<in> set (arrays s a). objects s' r = objects s r"
    by (simp add: allocated_def unchanged_def)
  with arr show items: "items_of s' a = items_of s a"
    by (simp add: items_of_def)
  from u have le: "next_ref s \<le> next_ref s'" by (simp add: unchanged_def)
  have "r < next_ref s' \<and> (\<forall>p \<in> nested_refs (objects s' r). p < next_ref s')"
    if "r \<in> set (arrays s a)" for r
    using al obj le that by (fastforce simp: allocated_def)
  with al le arr show "allocated s' a"
    by (simp add: allocated_def)
  have "resolve s' (objects s r) = resolve s (objects s r)" if "r \<in> set (arrays s a)" for r
    using al u that by (intro resolve_cong) (auto simp: allocated_def unchanged_def)
  with items show "snapshot s' a = snapshot s a"
    by (simp add: snapshot_def items_of_def)
qed

lemma collection_unchanged:
  assumes "collection s a" "unchanged s s'"
  shows "collection s' a" "snapshot s' a = snapshot s a" "arrays s' a = arrays s a"
  using assms allocated_unchanged [of s a s'] by (simp_all add: collection_def)

lemma map_fun_upd_distinct:
  "distinct rs \<Longrightarrow> i < length rs \<Longrightarrow> map (h(rs ! i := v)) rs = (map h rs)[i := v]"
  by (rule nth_equalityI) (auto simp: nth_list_update nth_eq_iff_index_eq)

lemma collection_modify:
  assumes c: "collection s a" and i: "i < length (arrays s a)"
      and f: "\<forall>p \<in> nested_refs (f (item_at s a i)). p < next_ref s"
  shows "collection (modify a i f s) a"
    and "snapshot (modify a i f s) a = (snapshot s a)[i := resolve s (f (item_at s a i))]"
proof -
  let ?r = "arrays s a ! i"
  let ?s' = "modify a i f s"
  have obj: "objects ?s' = (objects s)(?r := f (objects s ?r))"
    and arr: "arrays ?s' = arrays s" and nst: "nested ?s' = nested s"
    and nxt: "next_ref ?s' = next_ref s"
    by (simp_all add: modify_def set_object_def)
  from c f show "collection ?s' a"
    by (auto simp: collection_def allocated_def obj arr nxt item_at_def)
  from c have d: "distinct (arrays s a)" by (simp add: collection_def)
  have res: "resolve ?s' = resolve s"
    by (rule ext) (simp add: resolve_def nst)
  have "items_of ?s' a = (items_of s a)[i := f (objects s ?r)]"
    using map_fun_upd_distinct [OF d i] by (simp add: items_of_def obj arr)
  then show "snapshot ?s' a = (snapshot s a)[i := resolve s (f (item_at s a i))]"
    by (simp add: snapshot_def res map_update item_at_def)
qed

lemma collection_splice:
  assumes c: "collection s a"
  shows "collection (splice_st a i s) a"
    and "snapshot (splice_st a i s) a = splice1 (snapshot s a) i"
proof -
  have sub: "set (splice1 (arrays s a) i) \<subseteq> set (arrays s a)"
    by (auto simp: splice1_def dest: in_set_takeD in_set_dropD)
  with c show "collection (splice_st a i s) a"
    by (auto simp: collection_def allocated_def splice_st_def distinct_splice1)
  have "resolve (splice_st a i s) = resolve s"
    by (rule ext) (simp add: resolve_def splice_st_def)
  then show "snapshot (splice_st a i s) a = splice1 (snapshot s a) i"
    by (simp add: snapshot_def items_of_def splice_st_def map_splice1)
qed

lemma collection_push:
  assumes c: "collection s a" and x: "\<forall>p \<in> nested_refs x. p < next_ref s"
  shows "collection (push_st a x s) a"
    and "snapshot (push_st a x s) a = snapshot s a @ [resolve s x]"
proof -
  let ?r = "next_ref s"
  have eq: "push_st a x s = s\<lparr>objects := (objects s)(?r := x), next_ref := Suc ?r,
        arrays := (arrays s)(a := arrays s a @ [?r])\<rparr>"
    by (simp add: push_st_def new_object_def)
  from c have old: "\<forall>r \<in> set (arrays s a). r < ?r" and a: "a < ?r"
    by (simp_all add: collection_def allocated_def)
  then have notin: "?r \<notin> set (arrays s a)" by auto
  from c x old a notin show "collection (push_st a x s) a"
    by (auto simp: eq collection_def allocated_def less_Suc_eq)
  have res: "resolve (push_st a x s) = resolve s"
    by (rule ext) (simp add: resolve_def eq)
  have "map ((objects s)(?r := x)) (arrays s a) = map (objects s) (arrays s a)"
    using notin by (intro map_cong) auto
  then have "items_of (push_st a x s) a = items_of s a @ [x]"
    by (simp add: items_of_def eq)
  then show "snapshot (push_st a x s) a = snapshot s a @ [resolve s x]"
    unfolding snapshot_def res by simp
qed

lemma clone_nested_value:
  assumes "clone_nested p s = (p', s')"
  shows "map_option (nested s') p' = map_option (nested s) p"
    and "\<forall>q \<in> set_option p'. q < next_ref s'"
  using assms
  by (auto simp: clone_nested_def new_nested_def split: option.splits)

lemma new_nested_opt_value:
  assumes "new_nested_opt v s = (p', s')"
  shows "map_option (nested s') p' = v"
    and "\<forall>q \<in> set_option p'. q < next_ref s'"
  using assms
  by (auto simp: new_nested_opt_def new_nested_def split: option.splits)

lemma map_option_nested_unchanged:
  assumes "unchanged s s'" "\<forall>q \<in> set_option p. q < next_ref s"
  shows "map_option (nested s') p = map_option (nested s) p"
  using assms by (cases p) (simp_all add: unchanged_def)

lemma objectData_value:
  assumes o: "objectData r s = (r', s')"
      and al: "\<forall>p \<in> nested_refs (objects s r). p < next_ref s"
  shows "resolve s' (objects s' r') = resolve s (objects s r)"
    and "\<forall>p \<in> nested_refs (objects s' r'). p < next_ref s'"
proof -
  let ?x = "objects s r"
  obtain pos s1 where c1: "clone_nested (position ?x) s = (pos, s1)"
    by (cases "clone_nested (position ?x) s")
  obtain rul s2 where c2: "clone_nested (rules ?x) s1 = (rul, s2)"
    by (cases "clone_nested (rules ?x) s1")
  obtain dat s3 where c3: "clone_nested (data ?x) s2 = (dat, s3)"
    by (cases "clone_nested (data ?x) s2")
  let ?y = "?x\<lparr>position := pos, rules := rul, data := dat\<rparr>"
  from o c1 c2 c3 have n: "new_object ?y s3 = (r', s')"
    by (simp add: objectData_def Let_def)
  note f1 = clone_nested_facts [OF c1] and f2 = clone_nested_facts [OF c2]
    and f3 = clone_nested_facts [OF c3] and fn = new_object_facts [OF n]
  note v1 = clone_nested_value [OF c1] and v2 = clone_nested_value [OF c2]
    and v3 = clone_nested_value [OF c3]
  have u13: "unchanged s1 s3" using f2(1) f3(1) by (rule unchanged_trans)
  have u01: "unchanged s s1" by (rule f1(1))
  have u02: "unchanged s s2" using f1(1) f2(1) by (rule unchanged_trans)
  have le: "next_ref s1 \<le> next_ref s2" "next_ref s2 \<le> next_ref s3" "next_ref s3 \<le> next_ref s'"
    using f2(1) f3(1) fn(1) by (simp_all add: unchanged_def)
  from al have ar: "\<forall>q \<in> set_option (rules ?x). q < next_ref s"
    and ad: "\<forall>q \<in> set_option (data ?x). q < next_ref s"
    by (simp_all add: nested_refs_def)
  have p: "map_option (nested s3) pos = map_option (nested s) (position ?x)"
    using map_option_nested_unchanged [OF u13 v1(2)] v1(1) by simp
  have "map_option (nested s3) rul = map_option (nested s2) rul"
    using map_option_nested_unchanged [OF f3(1) v2(2)] .
  also have "\<dots> = map_option (nested s1) (rules ?x)" by (rule v2(1))
  also have "\<dots> = map_option (nested s) (rules ?x)"
    using map_option_nested_unchanged [OF u01 ar] .
  finally have q: "map_option (nested s3) rul = map_option (nested s) (rules ?x)" .
  have "map_option (nested s3) dat = map_option (nested s2) (data ?x)" by (rule v3(1))
  also have "\<dots> = map_option (nested s) (data ?x)"
    using map_option_nested_unchanged [OF u02 ad] .
  finally have d: "map_option (nested s3) dat = map_option (nested s) (data ?x)" .
  from fn(6) have y: "objects s' r' = ?y" by simp
  from p q d show "resolve s' (objects s' r') = resolve s (objects s r)"
    by (simp add: y resolve_def fn(5))
  from v1(2) v2(2) v3(2) le show "\<forall>p \<in> nested_refs (objects s' r'). p < next_ref s'"
    by (auto simp: y nested_refs_def)
qed

lemma arrayData_elements_value:
  "\<forall>r \<in> set rs. r < next_ref s \<and> (\<forall>p \<in> nested_refs (objects s r). p < next_ref s)
     \<Longrightarrow> arrayData_elements rs s = (rs', s')
     \<Longrightarrow> map (\<lambda>r. resolve s' (objects s' r)) rs' = map (\<lambda>r. resolve s (objects s r)) rs
         \<and> distinct rs'
         \<and> (\<forall>r \<in> set rs'. \<forall>p \<in> nested_refs (objects s' r). p < next_ref s')"
proof (induction rs arbitrary: s rs' s')
  case Nil
  then show ?case by simp
next
  case (Cons r rs)
  obtain r1 s1 where o: "objectData r s = (r1, s1)"
    by (cases "objectData r s")
  obtain rs2 s2 where a: "arrayData_elements rs s1 = (rs2, s2)"
    by (cases "arrayData_elements rs s1")
  from Cons.prems(2) o a have res: "rs' = r1 # rs2" "s' = s2"
    by simp_all
  note fo = objectData_facts [OF o]
  from Cons.prems(1) have alr: "\<forall>p \<in> nested_refs (objects s r). p < next_ref s"
    by simp
  note vo = objectData_value [OF o alr]
  from fo(1) have le: "next_ref s \<le> next_ref s1" by (simp add: unchanged_def)
  have rest: "\<forall>x \<in> set rs. x < next_ref s1 \<and> (\<forall>p \<in> nested_refs (objects s1 x). p < next_ref s1)"
  proof
    fix x assume x: "x \<in> set rs"
    with Cons.prems(1) have xl: "x < next_ref s"
      and xn: "\<forall>p \<in> nested_refs (objects s x). p < next_ref s"
      by simp_all
    from fo(1) xl have "objects s1 x = objects s x" by (simp add: unchanged_def)
    with xl xn le show "x < next_ref s1 \<and> (\<forall>p \<in> nested_refs (objects s1 x). p < next_ref s1)"
      by fastforce
  qed
  from Cons.IH [OF rest a]
  have m: "map (\<lambda>r. resolve s2 (objects s2 r)) rs2 = map (\<lambda>r. resolve s1 (objects s1 r)) rs"
    and d: "distinct rs2"
    and n: "\<forall>r \<in> set rs2. \<forall>p \<in> nested_refs (objects s2 r). p < next_ref s2"
    by simp_all
  note fa = arrayData_elements_facts [OF a]
  from fa have u12: "unchanged s1 s2" and ge: "\<forall>x \<in> set rs2. next_ref s1 \<le> x"
    by simp_all
  from u12 have le2: "next_ref s1 \<le> next_ref s2" by (simp add: unchanged_def)
  from u12 fo(4) have same: "objects s2 r1 = objects s1 r1"
    by (simp add: unchanged_def)
  have "resolve s2 (objects s1 r1) = resolve s1 (objects s1 r1)"
    using u12 vo(2) by (intro resolve_cong) (auto simp: unchanged_def)
  with vo(1) same have first: "resolve s2 (objects s2 r1) = resolve s (objects s r)"
    by simp
  have others: "map (\<lambda>r. resolve s1 (objects s1 r)) rs = map (\<lambda>r. resolve s (objects s r)) rs"
  proof (rule map_cong [OF refl])
    fix x assume x: "x \<in> set rs"
    with Cons.prems(1) have xl: "x < next_ref s"
      and xn: "\<forall>p \<in> nested_refs (objects s x). p < next_ref s"
      by simp_all
    from fo(1) xl have eq: "objects s1 x = objects s x" by (simp add: unchanged_def)
    have "resolve s1 (objects s x) = resolve s (objects s x)"
      using fo(1) xn by (intro resolve_cong) (auto simp: unchanged_def)
    with eq show "resolve s1 (objects s1 x) = resolve s (objects s x)" by simp
  qed
  from ge fo(4) have "r1 \<notin> set rs2" by auto
  moreover from vo(2) same le2 have "\<forall>p \<in> nested_refs (objects s2 r1). p < next_ref s2"
    by fastforce
  ultimately show ?case
    using res m d n first others by simp
qed

lemma cloneItems_st_value:
  assumes al: "allocated s a0" and c: "cloneItems_st a0 s = (a, s')"
  shows "collection s' a" and "snapshot s' a = snapshot s a0" and "unchanged s s'"
proof -
  obtain rs s1 where e: "arrayData_elements (arrays s a0) s = (rs, s1)"
    by (cases "arrayData_elements (arrays s a0) s")
  with c have n: "new_array rs s1 = (a, s')"
    by (simp add: cloneItems_st_def)
  note fe = arrayData_elements_facts [OF e] and fn = new_array_facts [OF n]
  from al have pre: "\<forall>r \<in> set (arrays s a0). r < next_ref s
      \<and> (\<forall>p \<in> nested_refs (objects s r). p < next_ref s)"
    by (simp add: allocated_def)
  note ve = arrayData_elements_value [OF pre e]
  from fn(4) have arr: "arrays s' a = rs" by simp
  from fe fn(1) show "unchanged s s'" by (blast intro: unchanged_trans)
  have "r < next_ref s' \<and> (\<forall>p \<in> nested_refs (objects s' r). p < next_ref s')"
    if "r \<in> set rs" for r
    using that fe ve fn(3,6) by fastforce
  with ve fn(2,3) arr show "collection s' a"
    by (simp add: collection_def allocated_def)
  have "resolve s' = resolve s1"
    by (rule ext) (simp add: resolve_def fn(5))
  with ve arr show "snapshot s' a = snapshot s a0"
    by (simp add: snapshot_def items_of_def fn(6) comp_def)
qed

lemma getBaseItem_st_value:
  assumes "getBaseItem_st cat i s = (bo, s')"
  shows "map_option (resolve_base s') bo = getBaseItem cat i"
    and "\<And>b. bo = Some b \<Longrightarrow> \<forall>p \<in> set_option (position b) \<union> set_option (rules b). p < next_ref s'"
proof -
  show "map_option (resolve_base s') bo = getBaseItem cat i"
  proof (cases "cat i")
    case None
    with assms show ?thesis by (simp add: getBaseItem_st_def getBaseItem_def)
  next
    case (Some e)
    obtain pos s1 where c1: "new_nested_opt (position e) s = (pos, s1)"
      by (cases "new_nested_opt (position e) s")
    obtain rul s2 where c2: "new_nested_opt (rules e) s1 = (rul, s2)"
      by (cases "new_nested_opt (rules e) s1")
    from map_option_nested_unchanged [OF new_nested_opt_facts(1) [OF c2] new_nested_opt_value(2) [OF c1]]
      new_nested_opt_value(1) [OF c1]
    have p: "map_option (nested s2) pos = position e" by simp
    from assms Some c1 c2 p new_nested_opt_value(1) [OF c2] show ?thesis
      by (auto simp: getBaseItem_st_def getBaseItem_def resolve_base_def)
  qed
  fix b assume b: "bo = Some b"
  show "\<forall>p \<in> set_option (position b) \<union> set_option (rules b). p < next_ref s'"
  proof (cases "cat i")
    case None
    with assms b show ?thesis by (simp add: getBaseItem_st_def)
  next
    case (Some e)
    obtain pos s1 where c1: "new_nested_opt (position e) s = (pos, s1)"
      by (cases "new_nested_opt (position e) s")
    obtain rul s2 where c2: "new_nested_opt (rules e) s1 = (rul, s2)"
      by (cases "new_nested_opt (rules e) s1")
    from assms Some c1 c2 b have pr: "position b = pos" "rules b = rul" "s' = s2"
      by (auto simp: getBaseItem_st_def)
    from new_nested_opt_facts(1) [OF c2] have "next_ref s1 \<le> next_ref s2"
      by (simp add: unchanged_def)
    with new_nested_opt_value(2) [OF c1] new_nested_opt_value(2) [OF c2] pr show ?thesis
      by fastforce
  qed
qed

lemma verify_snapshot:
  "verifyStackAndWeight cfg (snapshot s a) (resolve_options s' options)
     = verifyStackAndWeight cfg (items_of s a) options"
  by (simp add: snapshot_def verify_resolve)

lemma collection_nested:
  "collection s a \<Longrightarrow> i < length (arrays s a) \<Longrightarrow> \<forall>p \<in> nested_refs (item_at s a i). p < next_ref s"
  by (auto simp: collection_def allocated_def item_at_def)

lemma collection_modify_scalar:
  assumes "collection s a" "i < length (arrays s a)" "\<And>x. nested_refs (f x) = nested_refs x"
  shows "collection (modify a i f s) a"
    and "snapshot (modify a i f s) a = (snapshot s a)[i := resolve s (f (item_at s a i))]"
  using assms collection_nested [of s a i]
  by (auto intro!: collection_modify)

lemma resolve_options_unchanged:
  assumes "unchanged s s'" "\<forall>p \<in> set_option (opt_data options). p < next_ref s"
  shows "resolve_options s' options = resolve_options s options"
  using map_option_nested_unchanged [OF assms] by (simp add: resolve_options_def)

lemma resolve_unchanged:
  assumes "unchanged s s'" "\<forall>p \<in> nested_refs x. p < next_ref s"
  shows "resolve s' x = resolve s x"
  using assms by (intro resolve_cong) (auto simp: unchanged_def)

lemma resolve_patch_unchanged:
  assumes "unchanged s s'" "\<forall>p \<in> patch_refs patch. p < next_ref s"
  shows "resolve_patch s' patch = resolve_patch s patch"
proof -
  from assms(2) have "\<forall>q \<in> set_option (p_position patch). q < next_ref s"
    and "\<forall>q \<in> set_option (p_rules patch). q < next_ref s"
    and "\<forall>q \<in> set_option (p_data patch). q < next_ref s"
    by (simp_all add: patch_refs_def)
  from this [THEN map_option_nested_unchanged [OF assms(1)]] show ?thesis
    by (simp add: resolve_patch_def)
qed

lemma remove_st_value:
  assumes al: "allocated s a0"
  shows "result_value (remove_st u qty a0 s) = remove u qty (snapshot s a0)"
proof (cases "findIndex (\<lambda>item. uid item = u) (items_of s a0)")
  case None
  then show ?thesis
    by (simp add: remove_st_def remove_def findIndex_snapshot result_value_def)
next
  case (Some i)
  from findIndex_items_of [OF Some] have i: "i < length (arrays s a0)" .
  then have q0: "quantity (snapshot s a0 ! i) = quantity (item_at s a0 i)"
    by (simp add: snapshot_nth)
  obtain a s1 where c: "cloneItems_st a0 s = (a, s1)"
    by (cases "cloneItems_st a0 s")
  note v = cloneItems_st_value [OF al c]
  from cloneItems_st_owned(2) [OF c] i have i1: "i < length (arrays s1 a)" by simp
  then have at: "resolve s1 (item_at s1 a i) = snapshot s a0 ! i"
    using v(2) snapshot_nth [of i s1 a] by simp
  then have q1: "quantity (item_at s1 a i) = quantity (snapshot s a0 ! i)"
    by (metis resolve_fields(3))
  have m: "snapshot (modify a i (\<lambda>x. x\<lparr>quantity := quantity x - qty\<rparr>) s1) a
      = (snapshot s a0)[i := (snapshot s a0 ! i)\<lparr>quantity := quantity (snapshot s a0 ! i) - qty\<rparr>]"
    using collection_modify_scalar(2) [OF v(1) i1, of "\<lambda>x. x\<lparr>quantity := quantity x - qty\<rparr>"]
      v(2) at q1 by simp
  have sp: "snapshot (splice_st a i s1) a = splice1 (snapshot s a0) i"
    using collection_splice(2) [OF v(1)] v(2) by simp
  from Some c q0 q1 m sp show ?thesis
    by (simp add: remove_st_def remove_def findIndex_snapshot result_value_def cloneItems_def Let_def)
qed

lemma removeQuantityFrom_st_value:
  assumes al: "allocated s a0"
  shows "result_value (removeQuantityFrom_st u qty a0 s) = removeQuantityFrom u qty (snapshot s a0)"
proof -
  obtain a s1 where c: "cloneItems_st a0 s = (a, s1)"
    by (cases "cloneItems_st a0 s")
  note v = cloneItems_st_value [OF al c]
  have fi: "findIndex (\<lambda>x. uid x = u) (items_of s1 a) = findIndex (\<lambda>x. uid x = u) (snapshot s a0)"
    using findIndex_snapshot [of u s1 a] v(2) by simp
  show ?thesis
  proof (cases "findIndex (\<lambda>x. uid x = u) (items_of s1 a)")
    case None
    with c fi show ?thesis
      by (simp add: removeQuantityFrom_st_def removeQuantityFrom_def result_value_def cloneItems_def Let_def)
  next
    case (Some i)
    from findIndex_items_of [OF Some] have i1: "i < length (arrays s1 a)" .
    then have at: "resolve s1 (item_at s1 a i) = snapshot s a0 ! i"
      using v(2) snapshot_nth [of i s1 a] by simp
    then have q1: "quantity (item_at s1 a i) = quantity (snapshot s a0 ! i)"
      by (metis resolve_fields(3))
    have m: "snapshot (modify a i (\<lambda>x. x\<lparr>quantity := quantity x - qty\<rparr>) s1) a
        = (snapshot s a0)[i := (snapshot s a0 ! i)\<lparr>quantity := quantity (snapshot s a0 ! i) - qty\<rparr>]"
      using collection_modify_scalar(2) [OF v(1) i1, of "\<lambda>x. x\<lparr>quantity := quantity x - qty\<rparr>"]
        v(2) at q1 by simp
    have sp: "snapshot (splice_st a i s1) a = splice1 (snapshot s a0) i"
      using collection_splice(2) [OF v(1)] v(2) by simp
    from Some c fi q1 m sp show ?thesis
      by (simp add: removeQuantityFrom_st_def removeQuantityFrom_def result_value_def cloneItems_def Let_def)
  qed
qed

lemma removeAt_st_value:
  assumes al: "allocated s a0"
  shows "(case removeAt_st u a0 s of
            (Inl msg, s') \<Rightarrow> Inl msg
          | (Inr (a, removed), s') \<Rightarrow> Inr (snapshot s' a, snapshot s' removed))
         = removeAt u (snapshot s a0)"
proof -
  obtain a s1 where c: "cloneItems_st a0 s = (a, s1)"
    by (cases "cloneItems_st a0 s")
  note v = cloneItems_st_value [OF al c]
  have fi: "findIndex (\<lambda>x. uid x = u) (items_of s1 a) = findIndex (\<lambda>x. uid x = u) (snapshot s a0)"
    using findIndex_snapshot [of u s1 a] v(2) by simp
  show ?thesis
  proof (cases "findIndex (\<lambda>x. uid x = u) (items_of s1 a)")
    case None
    with c fi show ?thesis
      by (simp add: removeAt_st_def removeAt_def cloneItems_def Let_def)
  next
    case (Some i)
    from findIndex_items_of [OF Some] have i1: "i < length (arrays s1 a)" .
    obtain rm s2 where n: "new_array [arrays s1 a ! i] s1 = (rm, s2)"
      by (cases "new_array [arrays s1 a ! i] s1")
    note fn = new_array_facts [OF n]
    note c2 = collection_unchanged [OF v(1) fn(1)]
    let ?s3 = "splice_st a i s2"
    have sp: "snapshot ?s3 a = splice1 (snapshot s a0) i"
      using collection_splice(2) [OF c2(1)] c2(2) v(2) by simp
    from v(1) have "a < next_ref s1" by (simp add: collection_def allocated_def)
    with fn(2) have ne: "rm \<noteq> a" by simp
    have "resolve ?s3 = resolve s1"
      by (rule ext) (simp add: resolve_def splice_st_def fn(5))
    moreover have "items_of ?s3 rm = [item_at s1 a i]"
      using ne fn(4,6) by (simp add: items_of_def splice_st_def item_at_def)
    ultimately have "snapshot ?s3 rm = [resolve s1 (item_at s1 a i)]"
      by (simp add: snapshot_def)
    with i1 v(2) have rmv: "snapshot ?s3 rm = [snapshot s a0 ! i]"
      using snapshot_nth [of i s1 a] by simp
    from Some c fi n sp rmv show ?thesis
      by (simp add: removeAt_st_def removeAt_def cloneItems_def Let_def)
  qed
qed

lemma addSpecificItem_st_value:
  assumes al: "allocated s a0" and arg: "\<forall>p \<in> nested_refs it. p < next_ref s"
  shows "result_value (addSpecificItem_st cfg it a0 options s)
           = addSpecificItem cfg (resolve s it) (snapshot s a0) (resolve_options s options)"
proof -
  obtain a s1 where c: "cloneItems_st a0 s = (a, s1)"
    by (cases "cloneItems_st a0 s")
  note v = cloneItems_st_value [OF al c]
  from v(3) have le: "next_ref s \<le> next_ref s1" by (simp add: unchanged_def)
  with arg have arg1: "\<forall>p \<in> nested_refs it. p < next_ref s1" by fastforce
  have "snapshot (push_st a it s1) a = snapshot s a0 @ [resolve s it]"
    using collection_push(2) [OF v(1) arg1] v(2) resolve_unchanged [OF v(3) arg] by simp
  with c verify_snapshot [of cfg "push_st a it s1" a s options] show ?thesis
    by (simp add: addSpecificItem_st_def addSpecificItem_def result_value_def cloneItems_def Let_def)
qed

lemma update_st_value:
  assumes al: "allocated s a0" and arg: "\<forall>p \<in> patch_refs patch. p < next_ref s"
  shows "result_value (update_st u patch a0 s) = update u (resolve_patch s patch) (snapshot s a0)"
proof -
  obtain a s1 where c: "cloneItems_st a0 s = (a, s1)"
    by (cases "cloneItems_st a0 s")
  note v = cloneItems_st_value [OF al c]
  have fi: "findIndex (\<lambda>x. uid x = u) (items_of s1 a) = findIndex (\<lambda>x. uid x = u) (snapshot s a0)"
    using findIndex_snapshot [of u s1 a] v(2) by simp
  have pd: "p_decay (resolve_patch s patch) = p_decay patch"
    by (simp add: resolve_patch_def)
  show ?thesis
  proof (cases "findIndex (\<lambda>x. uid x = u) (items_of s1 a)")
    case None
    with c fi show ?thesis
      by (simp add: update_st_def update_def result_value_def cloneItems_def Let_def)
  next
    case (Some i)
    from findIndex_items_of [OF Some] have i1: "i < length (arrays s1 a)" .
    then have at: "resolve s1 (item_at s1 a i) = snapshot s a0 ! i"
      using v(2) snapshot_nth [of i s1 a] by simp
    from v(3) have le: "next_ref s \<le> next_ref s1" by (simp add: unchanged_def)
    have "\<forall>p \<in> nested_refs (object_assign (item_at s1 a i) patch). p < next_ref s1"
      using nested_refs_object_assign [of "item_at s1 a i" patch]
        collection_nested [OF v(1) i1] arg le by fastforce
    from collection_modify(2) [OF v(1) i1, of "\<lambda>x. object_assign x patch", OF this]
    have m: "snapshot (modify a i (\<lambda>x. object_assign x patch) s1) a
        = (snapshot s a0)[i := object_assign (snapshot s a0 ! i) (resolve_patch s patch)]"
      using v(2) at resolve_patch_unchanged [OF v(3) arg] by (simp add: resolve_object_assign)
    have sp: "snapshot (splice_st a i s1) a = splice1 (snapshot s a0) i"
      using collection_splice(2) [OF v(1)] v(2) by simp
    from Some c fi m sp pd show ?thesis
      by (simp add: update_st_def update_def result_value_def cloneItems_def Let_def
            split: option.splits)
  qed
qed

lemma invokeDecay_loop_st_value:
  "collection s a \<Longrightarrow> i \<le> length (arrays s a)
     \<Longrightarrow> snapshot (invokeDecay_loop_st a i s) a = invokeDecay_loop (snapshot s a) i"
proof (induction i arbitrary: s)
  case 0
  show ?case by simp
next
  case (Suc i)
  from Suc.prems have i: "i < length (arrays s a)" by simp
  then have d: "decay (snapshot s a ! i) = decay (item_at s a i)"
    by (simp add: snapshot_nth)
  show ?case
  proof (cases "decay (item_at s a i)")
    case None
    with Suc.IH [OF Suc.prems(1)] i d show ?thesis by simp
  next
    case (Some dc)
    let ?s1 = "modify a i (\<lambda>x. x\<lparr>decay := Some (dc - 1)\<rparr>) s"
    note m = collection_modify_scalar [OF Suc.prems(1) i, of "\<lambda>x. x\<lparr>decay := Some (dc - 1)\<rparr>"]
    have c1: "collection ?s1 a" by (rule m(1)) simp
    have s1: "snapshot ?s1 a = (snapshot s a)[i := (snapshot s a ! i)\<lparr>decay := Some (dc - 1)\<rparr>]"
      using m(2) i by (simp add: snapshot_nth)
    have l1: "i \<le> length (arrays ?s1 a)" using i by simp
    note sp = collection_splice [OF c1, of i]
    have l2: "i \<le> length (arrays (splice_st a i ?s1) a)"
      using i by (simp add: splice_st_def splice1_def)
    from Some d Suc.IH [OF c1 l1] Suc.IH [OF sp(1) l2] s1 sp(2) show ?thesis
      by (simp add: Let_def)
  qed
qed

lemma invokeDecay_st_value:
  assumes al: "allocated s a0"
  shows "(case invokeDecay_st a0 s of (a, s') \<Rightarrow> snapshot s' a) = invokeDecay (snapshot s a0)"
proof -
  obtain a s1 where c: "cloneItems_st a0 s = (a, s1)"
    by (cases "cloneItems_st a0 s")
  note v = cloneItems_st_value [OF al c]
  from invokeDecay_loop_st_value [OF v(1), of "length (arrays s1 a)"] v(2) c show ?thesis
    by (simp add: invokeDecay_st_def invokeDecay_def cloneItems_def Let_def)
       (metis length_snapshot)
qed

lemma resolve_base_fields [simp]:
  "item_id (resolve_base s b) = item_id b" "maxStack (resolve_base s b) = maxStack b"
  by (simp_all add: resolve_base_def)

lemma getBaseItem_st_None:
  assumes "getBaseItem_st cat i s = (bo, s')"
  shows "(bo = None) = (getBaseItem cat i = None)"
  using getBaseItem_st_value(1) [OF assms] by (cases bo; cases "getBaseItem cat i") simp_all

lemma getBaseItem_st_maxStack:
  assumes "getBaseItem_st cat i s = (Some b, s')"
  shows "\<exists>e. getBaseItem cat i = Some e \<and> maxStack e = maxStack b \<and> resolve_base s' b = e"
  using getBaseItem_st_value(1) [OF assms] by auto

lemma split_st_value:
  assumes al: "allocated s a0"
  shows "result_value (split_st cat cfg g u amount a0 options s)
           = split cat cfg g u amount (snapshot s a0) (resolve_options s options)"
proof -
  obtain a s1 where c: "cloneItems_st a0 s = (a, s1)"
    by (cases "cloneItems_st a0 s")
  note v = cloneItems_st_value [OF al c]
  have fi: "findIndex (\<lambda>x. uid x = u) (items_of s1 a) = findIndex (\<lambda>x. uid x = u) (snapshot s a0)"
    using findIndex_snapshot [of u s1 a] v(2) by simp
  show ?thesis
  proof (cases "findIndex (\<lambda>x. uid x = u) (items_of s1 a)")
    case None
    with c fi show ?thesis
      by (simp add: split_st_def split_def result_value_def cloneItems_def Let_def)
  next
    case (Some i)
    from findIndex_items_of [OF Some] have i1: "i < length (arrays s1 a)" .
    then have at1: "resolve s1 (item_at s1 a i) = snapshot s a0 ! i"
      using v(2) snapshot_nth [of i s1 a] by simp
    then have id1: "item_id (item_at s1 a i) = item_id (snapshot s a0 ! i)"
      by (metis resolve_fields(1))
    obtain bo s2 where b: "getBaseItem_st cat (item_id (item_at s1 a i)) s1 = (bo, s2)"
      by (cases "getBaseItem_st cat (item_id (item_at s1 a i)) s1")
    note u2 = getBaseItem_st_facts(1) [OF b]
    note c2 = collection_unchanged [OF v(1) u2]
    from i1 c2(3) have i2: "i < length (arrays s2 a)" by simp
    then have at2: "resolve s2 (item_at s2 a i) = snapshot s a0 ! i"
      using v(2) c2(2) snapshot_nth [of i s2 a] by simp
    then have q2: "quantity (item_at s2 a i) = quantity (snapshot s a0 ! i)"
      by (metis resolve_fields(3))
    show ?thesis
    proof (cases bo)
      case None
      with getBaseItem_st_None [OF b] id1 have "getBaseItem cat (item_id (snapshot s a0 ! i)) = None"
        by simp
      with None Some c fi b show ?thesis
        by (simp add: split_st_def split_def result_value_def cloneItems_def Let_def)
    next
      case (Some baseItem)
      with getBaseItem_st_maxStack [of cat _ s1 baseItem s2] b id1
      obtain e where e: "getBaseItem cat (item_id (snapshot s a0 ! i)) = Some e"
        by auto
      let ?f = "\<lambda>x. x\<lparr>quantity := quantity x - amount\<rparr>"
      let ?s3 = "modify a i ?f s2"
      note m = collection_modify_scalar [OF c2(1) i2, of ?f]
      have c3: "collection ?s3 a" by (rule m(1)) simp
      let ?items1 = "(snapshot s a0)[i := (snapshot s a0 ! i)\<lparr>quantity := quantity (snapshot s a0 ! i) - amount\<rparr>]"
      have s3: "snapshot ?s3 a = ?items1"
        using m(2) c2(2) v(2) at2 q2 by simp
      have i3: "i < length (arrays ?s3 a)" using i2 by simp
      obtain cl s4 where d: "objectData (arrays ?s3 a ! i) ?s3 = (cl, s4)"
        by (cases "objectData (arrays ?s3 a ! i) ?s3")
      note fd = objectData_facts [OF d]
      have "\<forall>p \<in> nested_refs (objects ?s3 (arrays ?s3 a ! i)). p < next_ref ?s3"
        using collection_nested [OF c3 i3] by (simp add: item_at_def)
      note vd = objectData_value [OF d this]
      note c4 = collection_unchanged [OF c3 fd(1)]
      let ?new = "(objects s4 cl)\<lparr>uid := g 0, quantity := amount\<rparr>"
      have "\<forall>p \<in> nested_refs ?new. p < next_ref s4" using vd(2) by simp
      note p = collection_push [OF c4(1) this]
      have "resolve s4 (objects s4 cl) = ?items1 ! i"
        using vd(1) snapshot_nth [OF i3] s3 by (simp add: item_at_def)
      then have s5: "snapshot (push_st a ?new s4) a
          = ?items1 @ [(?items1 ! i)\<lparr>uid := g 0, quantity := amount\<rparr>]"
        using p(2) c4(2) s3 by simp
      from \<open>findIndex (\<lambda>x. uid x = u) (items_of s1 a) = Some i\<close> Some c fi b e q2 d s5
        verify_snapshot [of cfg "push_st a ?new s4" a s options]
      show ?thesis
        by (simp add: split_st_def split_def result_value_def cloneItems_def Let_def)
    qed
  qed
qed

lemma stack_st_value:
  assumes al: "allocated s a0"
  shows "result_value (stack_st cat uidToStackOn uidToStack a0 s)
           = stack cat uidToStackOn uidToStack (snapshot s a0)"
proof -
  obtain a s1 where c: "cloneItems_st a0 s = (a, s1)"
    by (cases "cloneItems_st a0 s")
  note v = cloneItems_st_value [OF al c]
  define items where "items = snapshot s a0"
  have v2: "snapshot s1 a = items" using v(2) by (simp add: items_def)
  have fi: "findIndex (\<lambda>x. uid x = w) (items_of s1 a) = findIndex (\<lambda>x. uid x = w) items"
    for w
    using findIndex_snapshot [of w s1 a] v2 by simp
  show ?thesis
  proof (cases "findIndex (\<lambda>x. uid x = uidToStackOn) items")
    case None
    with c fi [of uidToStackOn] show ?thesis
      by (simp add: stack_st_def stack_def result_value_def cloneItems_def Let_def
            flip: items_def)
  next
    case t: (Some t)
    show ?thesis
    proof (cases "findIndex (\<lambda>x. uid x = uidToStack) items")
      case None
      with c t fi [of uidToStackOn] fi [of uidToStack] show ?thesis
        by (simp add: stack_st_def stack_def result_value_def cloneItems_def Let_def
              flip: items_def)
    next
      case k: (Some k)
      from t k fi have t1: "findIndex (\<lambda>x. uid x = uidToStackOn) (items_of s1 a) = Some t"
        and k1: "findIndex (\<lambda>x. uid x = uidToStack) (items_of s1 a) = Some k"
        by simp_all
      from findIndex_items_of [OF t1] findIndex_items_of [OF k1]
      have tl: "t < length (arrays s1 a)" and kl: "k < length (arrays s1 a)" .
      have at1: "resolve s1 (item_at s1 a j) = items ! j" if "j < length (arrays s1 a)" for j
        using that v2 snapshot_nth [of j s1 a] by simp
      have idt: "item_id (item_at s1 a t) = item_id (items ! t)"
        using at1 [OF tl] by (metis resolve_fields(1))
      have idk: "item_id (item_at s1 a k) = item_id (items ! k)"
        using at1 [OF kl] by (metis resolve_fields(1))
      obtain bo s2 where b: "getBaseItem_st cat (item_id (items ! k)) s1 = (bo, s2)"
        by (cases "getBaseItem_st cat (item_id (items ! k)) s1")
      note u2 = getBaseItem_st_facts(1) [OF b]
      note c2 = collection_unchanged [OF v(1) u2]
      from tl kl c2(3) have tl2: "t < length (arrays s2 a)" and kl2: "k < length (arrays s2 a)"
        by simp_all
      have at2: "resolve s2 (item_at s2 a t) = items ! t"
        using tl2 v2 c2(2) snapshot_nth [of t s2 a] by simp
      have q2: "quantity (item_at s2 a t) = quantity (items ! t)"
        using at2 by (metis resolve_fields(3))
      have m2: "maxStack (item_at s2 a t) = maxStack (items ! t)"
        using at2 by (metis resolve_fields(4))
      define d where "d = maxStack (items ! t) - quantity (items ! t)"
      define s3 where "s3 = modify a t (\<lambda>x. x\<lparr>quantity := quantity x + d\<rparr>) s2"
      define items1 where "items1 = items[t := (items ! t)\<lparr>quantity := quantity (items ! t) + d\<rparr>]"
      note m = collection_modify_scalar [OF c2(1) tl2, of "\<lambda>x. x\<lparr>quantity := quantity x + d\<rparr>"]
      have c3: "collection s3 a" unfolding s3_def by (rule m(1)) simp
      have snap3: "snapshot s3 a = items1"
        unfolding s3_def items1_def using m(2) c2(2) v2 at2 q2 by simp
      have kl3: "k < length (arrays s3 a)" using kl2 by (simp add: s3_def)
      have at3: "resolve s3 (item_at s3 a k) = items1 ! k"
        using snapshot_nth [OF kl3] snap3 by simp
      have q3: "quantity (item_at s3 a k) = quantity (items1 ! k)"
        using at3 by (metis resolve_fields(3))
      note m4 = collection_modify_scalar [OF c3 kl3, of "\<lambda>x. x\<lparr>quantity := quantity x - d\<rparr>"]
      have snap4: "snapshot (modify a k (\<lambda>x. x\<lparr>quantity := quantity x - d\<rparr>) s3) a
          = items1[k := (items1 ! k)\<lparr>quantity := quantity (items1 ! k) - d\<rparr>]"
        using m4(2) snap3 at3 q3 by simp
      have snap5: "snapshot (splice_st a k s3) a = splice1 items1 k"
        using collection_splice(2) [OF c3] snap3 by simp
      have store: "stack_st cat uidToStackOn uidToStack a0 s =
          (if item_id (items ! t) \<noteq> item_id (items ! k)
           then (Inl ''Both items were not the same, and cannot be stacked'', s1)
           else case bo of
                  None \<Rightarrow> (Inl ''Item cannot be stacked'', s2)
                | Some baseItem \<Rightarrow>
                    if maxStack baseItem \<le> 1 then (Inl ''Item cannot be stacked'', s2)
                    else if d \<le> 0 then (Inl ''Item is already at max stack'', s2)
                    else if quantity (items1 ! k) > d
                    then (Inr a, modify a k (\<lambda>x. x\<lparr>quantity := quantity x - d\<rparr>) s3)
                    else (Inr a, splice_st a k s3))"
        using c t1 k1 b
        by (simp add: stack_st_def idt idk q2 m2 Let_def flip: d_def s3_def q3
              split: option.splits)
      have val: "stack cat uidToStackOn uidToStack items =
          (if item_id (items ! t) \<noteq> item_id (items ! k)
           then Inl ''Both items were not the same, and cannot be stacked''
           else case getBaseItem cat (item_id (items ! k)) of
                  None \<Rightarrow> Inl ''Item cannot be stacked''
                | Some baseItem \<Rightarrow>
                    if maxStack baseItem \<le> 1 then Inl ''Item cannot be stacked''
                    else if d \<le> 0 then Inl ''Item is already at max stack''
                    else if quantity (items1 ! k) > d
                    then Inr (items1[k := (items1 ! k)\<lparr>quantity := quantity (items1 ! k) - d\<rparr>])
                    else Inr (splice1 items1 k))"
        using t k
        by (simp add: stack_def cloneItems_def Let_def flip: d_def items1_def
              split: option.splits)
      show ?thesis
      proof (cases bo)
        case None
        with getBaseItem_st_None [OF b] have "getBaseItem cat (item_id (items ! k)) = None"
          by simp
        with None show ?thesis
          unfolding store val items_def [symmetric] by (simp add: result_value_def)
      next
        case (Some baseItem)
        with getBaseItem_st_maxStack [of cat _ s1 baseItem s2] b
        obtain e where e: "getBaseItem cat (item_id (items ! k)) = Some e"
          and me: "maxStack e = maxStack baseItem"
          by auto
        with Some snap4 snap5 show ?thesis
          unfolding store val items_def [symmetric] by (simp add: result_value_def)
      qed
    qed
  qed
qed

lemma addNewItemStacks_loop_st_terminates:
  assumes "1 \<le> maxStack b"
  shows "addNewItemStacks_loop_st g b opts a q k s
           = Some (foldl (\<lambda>t x. push_st a x t) s
                     (spec_new_stacks g b opts k (spec_new_quantities (maxStack b) q)))"
proof (induction "nat q" arbitrary: q k s rule: less_induct)
  case less
  show ?case
  proof (cases "0 < q")
    case False
    then show ?thesis
      by (simp add: addNewItemStacks_loop_st.simps spec_new_quantities_def spec_new_stacks_newItem)
  next
    case True
    let ?n = "min q (maxStack b)"
    from True assms have "nat (q - ?n) < nat q" by (simp add: min_def)
    from less [OF this] True assms show ?thesis
      by (subst addNewItemStacks_loop_st.simps)
         (simp add: spec_new_quantities_step [OF True assms] spec_new_stacks_Cons)
  qed
qed

lemma addNewItemStacks_loop_st_Some_imp:
  assumes "addNewItemStacks_loop_st g b opts a q k s = Some s'"
  shows "q \<le> 0 \<or> 1 \<le> maxStack b"
proof (rule addNewItemStacks_loop_st.raw_induct
         [where P = "\<lambda>g b opts a q k s s'. q \<le> 0 \<or> 1 \<le> maxStack b", OF _ assms])
  fix loop :: "uidgen \<Rightarrow> ref base_item \<Rightarrow> ref add_options \<Rightarrow> ref \<Rightarrow> int \<Rightarrow> nat \<Rightarrow> store \<Rightarrow> store option"
  fix g b opts a q k s s'
  assume IH: "\<And>g b opts a q k s s'. loop g b opts a q k s = Some s' \<Longrightarrow> q \<le> 0 \<or> 1 \<le> maxStack b"
  assume step: "(if 0 < q
      then loop g b opts a (q - min q (maxStack b)) (Suc k)
             (push_st a (newItem b (min q (maxStack b)) (g k) opts) s)
      else Some s) = Some s'"
  show "q \<le> 0 \<or> 1 \<le> maxStack b"
  proof (cases "0 < q")
    case False
    then show ?thesis by simp
  next
    case True
    with step have "loop g b opts a (q - min q (maxStack b)) (Suc k)
             (push_st a (newItem b (min q (maxStack b)) (g k) opts) s) = Some s'"
      by simp
    from IH [OF this] True show ?thesis
      by (auto simp: min_def split: if_splits)
  qed
qed

lemma addNewItemStacks_loop_st_eq:
  "addNewItemStacks_loop_st g b opts a q k s =
     (if 0 < q \<and> maxStack b \<le> 0 then None
      else Some (foldl (\<lambda>t x. push_st a x t) s
                   (spec_new_stacks g b opts k (spec_new_quantities (maxStack b) q))))"
proof (cases "0 < q \<and> maxStack b \<le> 0")
  case True
  then have "addNewItemStacks_loop_st g b opts a q k s \<noteq> Some s'" for s'
    using addNewItemStacks_loop_st_Some_imp [of g b opts a q k s s'] by auto
  with True show ?thesis by auto
next
  case False
  show ?thesis
  proof (cases "0 < q")
    case True
    with False have "1 \<le> maxStack b" by simp
    from addNewItemStacks_loop_st_terminates [OF this] False show ?thesis by simp
  next
    case q: False
    then show ?thesis
      by (simp add: addNewItemStacks_loop_st.simps spec_new_quantities_def spec_new_stacks_newItem)
  qed
qed

lemma push_st_fields [simp]:
  "nested (push_st a x s) = nested s" "next_ref (push_st a x s) = Suc (next_ref s)"
  by (simp_all add: push_st_def new_object_def)

lemma collection_pushes:
  "collection s a \<Longrightarrow> \<forall>x \<in> set xs. \<forall>p \<in> nested_refs x. p < next_ref s
     \<Longrightarrow> collection (foldl (\<lambda>t x. push_st a x t) s xs) a
         \<and> snapshot (foldl (\<lambda>t x. push_st a x t) s xs) a = snapshot s a @ map (resolve s) xs"
proof (induction xs arbitrary: s)
  case Nil
  then show ?case by simp
next
  case (Cons x xs)
  from Cons.prems(2) have x: "\<forall>p \<in> nested_refs x. p < next_ref s" by simp
  note p = collection_push [OF Cons.prems(1) x]
  have rest: "\<forall>y \<in> set xs. \<forall>p \<in> nested_refs y. p < next_ref (push_st a x s)"
    using Cons.prems(2) by fastforce
  have "resolve (push_st a x s) = resolve s"
    by (rule ext) (simp add: resolve_def)
  with Cons.IH [OF p(1) rest] p(2) show ?case by simp
qed

lemma map_resolve_spec_new_stacks:
  "map (resolve s) (spec_new_stacks g b opts k qs)
     = spec_new_stacks g (resolve_base s b) (resolve_options s opts) k qs"
  by (auto simp: spec_new_stacks_newItem resolve_newItem)

lemma addNewItemStacks_eq:
  "addNewItemStacks cfg g items b q opts =
     (if 0 < q \<and> maxStack b \<le> 0 then None
      else (let items' = items @ spec_new_stacks g b opts 0 (spec_new_quantities (maxStack b) q)
            in Some (if verifyStackAndWeight cfg items' opts then Inr items' else Inl '''')))"
  by (simp add: addNewItemStacks_def addNewItemStacks_loop_eq Let_def)

lemma addNewItemStacks_st_value:
  assumes c: "collection s a"
      and refs: "\<forall>p \<in> set_option (position b) \<union> set_option (rules b) \<union> set_option (opt_data opts).
                   p < next_ref s"
  shows "map_option result_value (addNewItemStacks_st cfg g a b q opts s)
           = addNewItemStacks cfg g (snapshot s a) (resolve_base s b) q (resolve_options s opts)"
proof (cases "0 < q \<and> maxStack b \<le> 0")
  case True
  then show ?thesis
    by (simp add: addNewItemStacks_st_def addNewItemStacks_loop_st_eq addNewItemStacks_eq)
next
  case False
  define xs where "xs = spec_new_stacks g b opts 0 (spec_new_quantities (maxStack b) q)"
  define s' where "s' = foldl (\<lambda>t x. push_st a x t) s xs"
  have "\<forall>x \<in> set xs. \<forall>p \<in> nested_refs x. p < next_ref s"
    using refs by (auto simp: xs_def spec_new_stacks_newItem nested_refs_newItem)
  from collection_pushes [OF c this]
  have snap: "snapshot s' a = snapshot s a
      @ spec_new_stacks g (resolve_base s b) (resolve_options s opts) 0
          (spec_new_quantities (maxStack b) q)"
    by (simp add: s'_def xs_def map_resolve_spec_new_stacks)
  from False have st: "addNewItemStacks_st cfg g a b q opts s
      = Some (if verifyStackAndWeight cfg (items_of s' a) opts then Inr a else Inl '''', s')"
    by (simp add: addNewItemStacks_st_def addNewItemStacks_loop_st_eq s'_def xs_def)
  from False snap verify_snapshot [of cfg s' a s opts] show ?thesis
    unfolding st by (simp add: addNewItemStacks_eq result_value_def Let_def)
qed

lemma handleItemStacking_loop_st_value:
  assumes ib: "item_id b' = item_id b" and mb: "maxStack b' = maxStack b"
  shows "collection s a \<Longrightarrow> k \<le> length (arrays s a)
     \<Longrightarrow> handleItemStacking_loop_st b (drop k (arrays s a)) q s = (q', s')
     \<Longrightarrow> collection s' a \<and> next_ref s' = next_ref s \<and> nested s' = nested s
         \<and> arrays s' = arrays s
         \<and> (take k (snapshot s a) @ fst (handleItemStacking_loop b' (drop k (snapshot s a)) q),
              snd (handleItemStacking_loop b' (drop k (snapshot s a)) q))
           = (snapshot s' a, q')"
proof (induction "length (arrays s a) - k" arbitrary: k q s)
  case 0
  then show ?case by simp
next
  case (Suc n)
  from Suc.hyps(2) have k: "k < length (arrays s a)" by simp
  let ?r = "arrays s a ! k"
  let ?x = "item_at s a k"
  have dr: "drop k (arrays s a) = ?r # drop (Suc k) (arrays s a)"
    using k by (simp add: Cons_nth_drop_Suc)
  have ds: "drop k (snapshot s a) = resolve s ?x # drop (Suc k) (snapshot s a)"
    using k by (simp add: Cons_nth_drop_Suc [symmetric] snapshot_nth)
  have tk: "take (Suc k) (snapshot s a) = take k (snapshot s a) @ [resolve s ?x]"
    using k by (simp add: take_Suc_conv_app_nth snapshot_nth)
  have obj: "objects s ?r = ?x" by (simp add: item_at_def)
  show ?case
  proof (cases "item_id ?x \<noteq> item_id b \<or> quantity ?x = maxStack b")
    case True
    with Suc.prems(3) have run: "handleItemStacking_loop_st b (drop (Suc k) (arrays s a)) q s = (q', s')"
      by (simp add: dr obj)
    from Suc.hyps(2) k have "n = length (arrays s a) - Suc k" by simp
    from Suc.hyps(1) [OF this Suc.prems(1) _ run] k True show ?thesis
      by (auto simp: ds tk ib mb split: prod.splits)
  next
    case False
    show ?thesis
    proof (cases "q \<le> 0")
      case True
      with False have v: "handleItemStacking_loop b' (drop k (snapshot s a)) q
          = (drop k (snapshot s a), q)"
        by (simp add: ds ib mb)
      from False True Suc.prems(3) have "q' = q" "s' = s"
        by (simp_all add: dr obj)
      with v Suc.prems(1) show ?thesis by simp
    next
      case pos: False
      define m where "m = min (maxStack b - quantity ?x) q"
      define s1 where "s1 = modify a k (\<lambda>x. x\<lparr>quantity := quantity x + m\<rparr>) s"
      have s1': "s1 = set_object ?r (\<lambda>x. x\<lparr>quantity := quantity x + m\<rparr>) s"
        by (simp add: s1_def modify_def)
      note md = collection_modify_scalar [OF Suc.prems(1) k, of "\<lambda>x. x\<lparr>quantity := quantity x + m\<rparr>"]
      have c1: "collection s1 a" unfolding s1_def by (rule md(1)) simp
      have snap1: "snapshot s1 a = (snapshot s a)[k := (resolve s ?x)\<lparr>quantity := quantity ?x + m\<rparr>]"
        unfolding s1_def using md(2) by simp
      have same: "arrays s1 = arrays s" "next_ref s1 = next_ref s" "nested s1 = nested s"
        by (simp_all add: s1_def modify_def set_object_def)
      from False pos Suc.prems(3)
      have run: "handleItemStacking_loop_st b (drop (Suc k) (arrays s1 a)) (q - m) s1 = (q', s')"
        by (simp add: dr obj Let_def s1' same flip: m_def)
      from Suc.hyps(2) k have n: "n = length (arrays s1 a) - Suc k" by (simp add: same)
      from k have k1: "Suc k \<le> length (arrays s1 a)" by (simp add: same)
      note IH = Suc.hyps(1) [OF n c1 k1 run]
      have d1: "drop (Suc k) (snapshot s1 a) = drop (Suc k) (snapshot s a)"
        by (simp add: snap1)
      have t1: "take (Suc k) (snapshot s1 a)
          = take k (snapshot s a) @ [(resolve s ?x)\<lparr>quantity := quantity ?x + m\<rparr>]"
        using k by (simp add: snap1 take_Suc_conv_app_nth)
      from IH False pos show ?thesis
        by (auto simp: ds d1 t1 same ib mb Let_def m_def split: prod.splits)
    qed
  qed
qed

lemma resolve_base_unchanged:
  assumes "unchanged s s'" "\<forall>p \<in> set_option (position b) \<union> set_option (rules b). p < next_ref s"
  shows "resolve_base s' b = resolve_base s b"
proof -
  from assms(2) have "\<forall>q \<in> set_option (position b). q < next_ref s"
    and "\<forall>q \<in> set_option (rules b). q < next_ref s"
    by simp_all
  from map_option_nested_unchanged [OF assms(1) this(1)]
       map_option_nested_unchanged [OF assms(1) this(2)]
  show ?thesis by (simp add: resolve_base_def)
qed

lemma handleItemStacking_st_value:
  assumes c: "collection s a"
      and refs: "\<forall>p \<in> set_option (position b) \<union> set_option (rules b) \<union> set_option (opt_data opts).
                   p < next_ref s"
  shows "map_option result_value (handleItemStacking_st cfg g a b q opts s)
           = handleItemStacking cfg g (snapshot s a) (resolve_base s b) q (resolve_options s opts)"
proof (cases "maxStack b \<le> 1")
  case True
  with addNewItemStacks_st_value [OF c refs] show ?thesis
    by (simp add: handleItemStacking_st_def handleItemStacking_def)
next
  case False
  obtain q' s' where l: "handleItemStacking_loop_st b (arrays s a) q s = (q', s')"
    by (cases "handleItemStacking_loop_st b (arrays s a) q s")
  have "item_id (resolve_base s b) = item_id b" "maxStack (resolve_base s b) = maxStack b"
    by simp_all
  from handleItemStacking_loop_st_value [OF this c, of 0 q q' s'] l
  have c': "collection s' a" and nr: "next_ref s' = next_ref s" and ne: "nested s' = nested s"
    and v: "handleItemStacking_loop (resolve_base s b) (snapshot s a) q = (snapshot s' a, q')"
    by simp_all
  from ne have rb: "resolve_base s' b = resolve_base s b"
    and ro: "resolve_options s' opts = resolve_options s opts"
    by (simp_all add: resolve_base_def resolve_options_def)
  from refs nr have refs': "\<forall>p \<in> set_option (position b) \<union> set_option (rules b)
      \<union> set_option (opt_data opts). p < next_ref s'"
    by simp
  note n = addNewItemStacks_st_value [OF c' refs', of cfg g q']
  from False l v n show ?thesis
    by (simp add: handleItemStacking_st_def handleItemStacking_def rb ro result_value_def)
qed

lemma add_st_value:
  assumes al: "allocated s a0" and arg: "\<forall>p \<in> set_option (opt_data opts). p < next_ref s"
  shows "map_option result_value (add_st cat cfg g i q a0 opts s)
           = add cat cfg g i q (snapshot s a0) (resolve_options s opts)"
proof -
  obtain bo s1 where gb: "getBaseItem_st cat i s = (bo, s1)"
    by (cases "getBaseItem_st cat i s")
  note u1 = getBaseItem_st_facts(1) [OF gb]
  show ?thesis
  proof (cases bo)
    case None
    with getBaseItem_st_None [OF gb] have "getBaseItem cat i = None" by simp
    with None gb show ?thesis
      by (simp add: add_st_def add_def result_value_def)
  next
    case (Some b)
    with getBaseItem_st_value(1) [OF gb] have cb: "getBaseItem cat i = Some (resolve_base s1 b)"
      by simp
    from getBaseItem_st_value(2) [OF gb Some]
    have br: "\<forall>p \<in> set_option (position b) \<union> set_option (rules b). p < next_ref s1" .
    obtain a s2 where cl: "cloneItems_st a0 s1 = (a, s2)"
      by (cases "cloneItems_st a0 s1")
    note al1 = allocated_unchanged [OF al u1]
    note v = cloneItems_st_value [OF al1(1) cl]
    from u1 v(3) have u2: "unchanged s s2" by (rule unchanged_trans)
    have snap: "snapshot s2 a = snapshot s a0"
      using v(2) al1(4) by simp
    have rb: "resolve_base s2 b = resolve_base s1 b"
      by (rule resolve_base_unchanged [OF v(3) br])
    have ro: "resolve_options s2 opts = resolve_options s opts"
      by (rule resolve_options_unchanged [OF u2 arg])
    from u1 v(3) have le: "next_ref s \<le> next_ref s1" "next_ref s1 \<le> next_ref s2"
      by (simp_all add: unchanged_def)
    with br arg have refs: "\<forall>p \<in> set_option (position b) \<union> set_option (rules b)
        \<union> set_option (opt_data opts). p < next_ref s2"
      by fastforce
    note n = addNewItemStacks_st_value [OF v(1) refs, of cfg g q]
    note h = handleItemStacking_st_value [OF v(1) refs, of cfg g q]
    from Some gb cl cb n h show ?thesis
      by (simp add: add_st_def add_def cloneItems_def snap rb ro)
  qed
qed

text \<open>
  The operations on the store compute what the operations on values compute: a call on a
  collection that exists in the store, with arguments that exist in the store, returns
  the message or the collection that the call on the value of the collection returns, and
  it returns nothing exactly when that call returns nothing.
\<close>

lemma run_st_value:
  assumes al: "allocated s a0" and arg: "\<forall>p \<in> argument_refs op. p < next_ref s"
  shows "map_option result_value (run_st cat cfg g op a0 s)
           = run cat cfg g (resolve_operation s op) (snapshot s a0)"
proof (cases op)
  case (Add i qty options)
  with arg add_st_value [OF al, of options cat cfg g i qty] show ?thesis by simp
next
  case (AddSpecificItem it options)
  with arg addSpecificItem_st_value [OF al, of it cfg options] show ?thesis by simp
next
  case (Remove u qty)
  with remove_st_value [OF al, of u qty] show ?thesis by simp
next
  case (RemoveAt u)
  with removeAt_st_value [OF al, of u] show ?thesis
    by (auto simp: result_value_def split: prod.splits sum.splits)
next
  case (RemoveQuantityFrom u qty)
  with removeQuantityFrom_st_value [OF al, of u qty] show ?thesis by simp
next
  case (Split u amountToSplit options)
  with split_st_value [OF al, of cat cfg g u amountToSplit options] show ?thesis by simp
next
  case (Stack uidToStackOn uidToStack)
  with stack_st_value [OF al, of cat uidToStackOn uidToStack] show ?thesis by simp
next
  case (Update u patch)
  with arg update_st_value [OF al, of patch u] show ?thesis by simp
next
  case InvokeDecay
  with invokeDecay_st_value [OF al] show ?thesis
    by (simp add: result_value_def split: prod.splits)
qed

lemma resolve_data: "data (resolve s x) = map_option (nested s) (data x)"
  by (simp add: resolve_def)

text \<open>
  The stack that a successful \<^verbatim>\<open>split\<close> appends: it has the generated identifier and the
  amount, and its auxiliary data is a deep copy of that of the source stack: an object with
  the content of the source's data that did not exist before the call and that no other
  stack of the returned collection refers to.
\<close>

lemma split_st_deep_copy:
  assumes al: "allocated s a0"
      and run: "split_st cat cfg g u amount a0 options s = (Inr a, s')"
  shows "\<exists>index. findIndex (\<lambda>x. uid x = u) (items_of s a0) = Some index
        \<and> length (arrays s' a) = Suc (length (arrays s a0))
        \<and> uid (item_at s' a (length (arrays s a0))) = g 0
        \<and> quantity (item_at s' a (length (arrays s a0))) = amount
        \<and> quantity (item_at s' a index) = quantity (item_at s a0 index) - amount
        \<and> map_option (nested s') (data (item_at s' a (length (arrays s a0))))
            = map_option (nested s) (data (item_at s a0 index))
        \<and> (\<forall>p \<in> set_option (data (item_at s' a (length (arrays s a0)))).
              next_ref s \<le> p
              \<and> (\<forall>i < length (arrays s a0). p \<notin> nested_refs (item_at s' a i)))"
proof -
  let ?n = "length (arrays s a0)"
  obtain a1 s1 where c: "cloneItems_st a0 s = (a1, s1)"
    by (cases "cloneItems_st a0 s")
  note v = cloneItems_st_value [OF al c]
  have n1: "length (arrays s1 a1) = ?n"
    using arg_cong [OF v(2), of length] by simp
  have fi: "findIndex (\<lambda>x. uid x = u) (items_of s1 a1) = findIndex (\<lambda>x. uid x = u) (items_of s a0)"
    using findIndex_snapshot [of u s1 a1] findIndex_snapshot [of u s a0] v(2) by simp
  show ?thesis
  proof (cases "findIndex (\<lambda>x. uid x = u) (items_of s1 a1)")
    case None
    with c run show ?thesis
      by (simp add: split_st_def Let_def)
  next
    case (Some i)
    from findIndex_items_of [OF Some] have i1: "i < length (arrays s1 a1)" .
    with n1 have i0: "i < ?n" by simp
    have at1: "resolve s1 (item_at s1 a1 i) = resolve s (item_at s a0 i)"
      using v(2) snapshot_nth [OF i1] snapshot_nth [OF i0] by simp
    obtain bo s2 where b: "getBaseItem_st cat (item_id (item_at s1 a1 i)) s1 = (bo, s2)"
      by (cases "getBaseItem_st cat (item_id (item_at s1 a1 i)) s1")
    note u2 = getBaseItem_st_facts(1) [OF b]
    note c2 = collection_unchanged [OF v(1) u2]
    from i1 c2(3) have i2: "i < length (arrays s2 a1)" by simp
    have at2: "resolve s2 (item_at s2 a1 i) = resolve s (item_at s a0 i)"
      using c2(2) at1 snapshot_nth [OF i1] snapshot_nth [OF i2] by simp
    then have q2: "quantity (item_at s2 a1 i) = quantity (item_at s a0 i)"
      by (metis resolve_fields(3))
    show ?thesis
    proof (cases bo)
      case None
      with Some c b run show ?thesis
        by (simp add: split_st_def Let_def)
    next
      case (Some baseItem)
      let ?f = "\<lambda>x. x\<lparr>quantity := quantity x - amount\<rparr>"
      define s3 where "s3 = modify a1 i ?f s2"
      note m = collection_modify_scalar [OF c2(1) i2, of ?f]
      have c3: "collection s3 a1" unfolding s3_def by (rule m(1)) simp
      have arr3: "arrays s3 = arrays s2" and nr3: "next_ref s3 = next_ref s2"
        by (simp_all add: s3_def modify_def set_object_def)
      have i3: "i < length (arrays s3 a1)" using i2 by (simp add: arr3)
      have at3: "resolve s3 (item_at s3 a1 i)
          = (resolve s (item_at s a0 i))\<lparr>quantity := quantity (item_at s a0 i) - amount\<rparr>"
        using m(2) snapshot_nth [OF i3] i2 at2 q2 by (simp add: s3_def)
      obtain cl s4 where d: "objectData (arrays s3 a1 ! i) s3 = (cl, s4)"
        by (cases "objectData (arrays s3 a1 ! i) s3")
      note fd = objectData_facts [OF d]
      have "\<forall>p \<in> nested_refs (objects s3 (arrays s3 a1 ! i)). p < next_ref s3"
        using collection_nested [OF c3 i3] by (simp add: item_at_def)
      note vd = objectData_value [OF d this]
      note c4 = collection_unchanged [OF c3 fd(1)]
      define new where "new = (objects s4 cl)\<lparr>uid := g 0, quantity := amount\<rparr>"
      define s5 where "s5 = push_st a1 new s4"
      have eq5: "s5 = s4\<lparr>objects := (objects s4)(next_ref s4 := new), next_ref := Suc (next_ref s4),
          arrays := (arrays s4)(a1 := arrays s4 a1 @ [next_ref s4])\<rparr>"
        by (simp add: s5_def push_st_def new_object_def)
      have n4: "length (arrays s4 a1) = ?n"
        using c4(3) arr3 c2(3) n1 by simp
      from run c \<open>findIndex (\<lambda>x. uid x = u) (items_of s1 a1) = Some i\<close> b Some d
      have res: "a = a1" "s' = s5"
        by (auto simp: split_st_def Let_def s3_def s5_def new_def split: if_splits)
      have old4: "\<forall>r \<in> set (arrays s4 a1). r < next_ref s4"
        using c4(1) by (simp add: collection_def allocated_def)
      have new_at: "item_at s5 a1 ?n = new"
        using n4 by (simp add: eq5 item_at_def nth_append)
      have old_at: "item_at s5 a1 j = item_at s3 a1 j" if j: "j < ?n" for j
      proof -
        from j n4 have in4: "arrays s4 a1 ! j \<in> set (arrays s4 a1)" by simp
        with old4 have lt: "arrays s4 a1 ! j < next_ref s4" by blast
        from j n4 have "item_at s5 a1 j = objects s4 (arrays s4 a1 ! j)"
          using lt by (simp add: eq5 item_at_def nth_append)
        also from c3 have "arrays s3 a1 ! j < next_ref s3"
          using j n4 c4(3) by (simp add: collection_def allocated_def)
        with fd(1) have "objects s4 (arrays s3 a1 ! j) = objects s3 (arrays s3 a1 ! j)"
          by (simp add: unchanged_def)
        with c4(3) have "objects s4 (arrays s4 a1 ! j) = item_at s3 a1 j"
          by (simp add: item_at_def)
        finally show ?thesis .
      qed
      have le: "next_ref s \<le> next_ref s3"
        using v(3) u2 by (simp add: unchanged_def nr3)
      have fresh: "\<forall>p \<in> set_option (data new). next_ref s3 \<le> p"
        using fd(5) by (auto simp: new_def nested_refs_def)
      have "map_option (nested s5) (data new) = data (resolve s4 (objects s4 cl))"
        by (simp add: eq5 new_def resolve_data)
      also have "\<dots> = data (resolve s3 (item_at s3 a1 i))"
        using vd(1) by (simp add: item_at_def)
      also have "\<dots> = map_option (nested s) (data (item_at s a0 i))"
        by (simp add: at3 resolve_data)
      finally have content: "map_option (nested s5) (data new)
          = map_option (nested s) (data (item_at s a0 i))" .
      have src: "quantity (item_at s5 a1 i) = quantity (item_at s a0 i) - amount"
        using old_at [OF i0] arg_cong [OF at3, of quantity] by simp
      have own: "p \<notin> nested_refs (item_at s5 a1 j)"
        if p: "p \<in> set_option (data new)" and j: "j < ?n" for p j
      proof -
        from j n4 c4(3) have "j < length (arrays s3 a1)" by simp
        from collection_nested [OF c3 this] have "\<forall>q \<in> nested_refs (item_at s3 a1 j). q < next_ref s3" .
        with fresh p old_at [OF j] show ?thesis by fastforce
      qed
      have "findIndex (\<lambda>x. uid x = u) (items_of s a0) = Some i"
        using \<open>findIndex (\<lambda>x. uid x = u) (items_of s1 a1) = Some i\<close> fi by simp
      moreover have "length (arrays s5 a1) = Suc ?n"
        using n4 by (simp add: eq5)
      moreover have "uid (item_at s5 a1 ?n) = g 0" "quantity (item_at s5 a1 ?n) = amount"
        by (simp_all add: new_at new_def)
      moreover have "\<forall>p \<in> set_option (data (item_at s5 a1 ?n)).
              next_ref s \<le> p \<and> (\<forall>j < ?n. p \<notin> nested_refs (item_at s5 a1 j))"
        using fresh le own by (fastforce simp: new_at)
      ultimately show ?thesis
        using src content unfolding res by (auto simp: new_at)
    qed
  qed
qed

section \<open>Claims\<close>

text \<open>
  Claim C1 (stack moves min(remaining capacity, source quantity), total preserved). The code
  adds the whole remaining capacity of the target to the target, whatever the source holds:
  with a target of 2 bottles (max-stack 5) and a source of 1 bottle, \<^verbatim>\<open>stack\<close> returns a
  single stack of 5 bottles. The collection held 3 bottles before the call and holds 5
  after it, where the claim moves min(3, 1) = 1 unit and keeps the total at 3.
\<close>

theorem stack_creates_units:
  "stack catalog1 ''a'' ''b'' [bottles ''a'' 2, bottles ''b'' 1] = Inr [bottles ''a'' 5]
   \<and> totalQuantityFound ''water_bottle'' [bottles ''a'' 2, bottles ''b'' 1] = 3
   \<and> totalQuantityFound ''water_bottle'' [bottles ''a'' 5] = 5"
  by (simp add: stack_def catalog1_def getBaseItem_def water_bottle_def cloneItems_def
        bottles_def newItem_def splice1_def no_options_def totalQuantityFound_def)

text \<open>
  Claim C2 (every add is validated against the capacity and weight policy, also when the
  quantity is absorbed by existing stacks). With weight enforcement on and a limit of 3, adding
  4 bottles of weight 1 to a stack of 1 bottle is absorbed by that stack; \<^verbatim>\<open>add\<close> returns
  the collection of weight 5, which \<^verbatim>\<open>verifyStackAndWeight\<close> rejects. Adding 5 bottles, one
  of which needs a new stack, is validated and fails.
\<close>

theorem add_absorbed_not_validated:
  "add catalog1 weight_limited uids ''water_bottle'' 4 [bottles ''a'' 1] no_options
     = Some (Inr [bottles ''a'' 5])
   \<and> \<not> verifyStackAndWeight weight_limited [bottles ''a'' 5] no_options
   \<and> add catalog1 weight_limited uids ''water_bottle'' 5 [bottles ''a'' 1] no_options
     = Some (Inl '''')"
  by (simp add: add_def catalog1_def getBaseItem_def water_bottle_def cloneItems_def
        handleItemStacking_def addNewItemStacks_def addNewItemStacks_loop.simps
        bottles_def newItem_def no_options_def weight_limited_def
        verifyStackAndWeight_def isWeightExceeded_def or_number_def or_object_def)

text \<open>
  Claim C3, as stated, fails on the code. \<^verbatim>\<open>update\<close> writes whatever the patch holds, so a
  patch with quantity 0 leaves a stack of quantity 0 in the collection, and
  \<^verbatim>\<open>addSpecificItem\<close> appends the stack it is given, whatever its quantity. \<^verbatim>\<open>add\<close> fills
  a stack up to the catalog's max-stack, which may be above the \<^verbatim>\<open>maxStack\<close> field of the
  stack. \<^verbatim>\<open>split\<close> accepts the amount 0, and \<^verbatim>\<open>remove\<close> a negative quantity.
\<close>

theorem quantity_bounds_counterexample:
  "update ''a'' (no_patch\<lparr>p_quantity := Some 0\<rparr>) [bottles ''a'' 3] = Inr [bottles ''a'' 0]
   \<and> addSpecificItem unlimited (bottles ''b'' 0) [bottles ''a'' 3] no_options
       = Inr [bottles ''a'' 3, bottles ''b'' 0]
   \<and> add catalog1 unlimited uids ''water_bottle'' 3 [(bottles ''a'' 2)\<lparr>maxStack := 3\<rparr>] no_options
       = Some (Inr [(bottles ''a'' 5)\<lparr>maxStack := 3\<rparr>])
   \<and> split catalog1 unlimited uids ''a'' 0 [bottles ''a'' 3] no_options
       = Inr [bottles ''a'' 3, bottles ''uid-'' 0]
   \<and> remove ''a'' (- 3) [bottles ''a'' 5] = Inr [bottles ''a'' 8]
   \<and> stack_ok (bottles ''a'' 3) \<and> stack_ok (bottles ''a'' 5)
   \<and> stack_ok ((bottles ''a'' 2)\<lparr>maxStack := 3\<rparr>)
   \<and> \<not> stack_ok (bottles ''a'' 0) \<and> \<not> stack_ok (bottles ''b'' 0)
   \<and> \<not> stack_ok ((bottles ''a'' 5)\<lparr>maxStack := 3\<rparr>)
   \<and> \<not> stack_ok (bottles ''uid-'' 0) \<and> \<not> stack_ok (bottles ''a'' 8)"
  by (simp add: update_def addSpecificItem_def add_def split_def remove_def
        handleItemStacking_def cloneItems_def
        object_assign_def assign_req_def assign_opt_def no_patch_def
        catalog1_def getBaseItem_def water_bottle_def
        bottles_def newItem_def no_options_def unlimited_def uids_def stack_ok_def
        verifyStackAndWeight_def or_number_def or_object_def)

text \<open>
  Claim C3, amended: when every stack of the collection has a quantity in \<open>[1, maxStack]\<close>,
  every stack of the collection that a successful operation returns has one too, provided
  that the call is one of those \<open>quantity_safe\<close> describes: for \<^verbatim>\<open>add\<close>, the catalog's
  max-stack of the type is not above the \<^verbatim>\<open>maxStack\<close> field of the stacks of that type in
  the collection; for \<^verbatim>\<open>addSpecificItem\<close>, the stack handed in is within bounds; for
  \<^verbatim>\<open>update\<close>, the patch sets neither \<^verbatim>\<open>quantity\<close> nor \<^verbatim>\<open>maxStack\<close>; a quantity to remove
  is not negative and an amount to split off is at least 1. \<^verbatim>\<open>stack\<close>, \<^verbatim>\<open>removeAt\<close> and
  \<^verbatim>\<open>invokeDecay\<close> need no proviso.
\<close>

theorem quantity_bounds_preserved:
  assumes "list_all stack_ok items"
      and "quantity_safe cat op items"
      and "run cat cfg g op items = Some (Inr items')"
  shows "list_all stack_ok items'"
proof (cases op)
  case (Add i qty options)
  with assms show ?thesis by (auto intro: add_ok)
next
  case (AddSpecificItem it options)
  with assms show ?thesis by (auto intro: addSpecificItem_ok)
next
  case (Remove u qty)
  with assms show ?thesis by (auto intro: remove_ok)
next
  case (RemoveAt u)
  with assms show ?thesis by (auto intro: removeAt_ok split: sum.splits)
next
  case (RemoveQuantityFrom u qty)
  with assms show ?thesis by (auto intro: removeQuantityFrom_ok)
next
  case (Split u amountToSplit options)
  with assms show ?thesis by (auto intro: split_ok)
next
  case (Stack uidToStackOn uidToStack)
  with assms show ?thesis by (auto intro: stack_ok_stack)
next
  case (Update u patch)
  with assms show ?thesis by (auto intro: update_ok)
next
  case InvokeDecay
  with assms show ?thesis by (auto intro: invokeDecay_ok)
qed

theorem quantity_bounds_preserved_witness:
  "list_all stack_ok [bottles ''a'' 2, bottles ''b'' 4]
   \<and> quantity_safe catalog1 (Add ''water_bottle'' 11 no_options) [bottles ''a'' 2, bottles ''b'' 4]
   \<and> run catalog1 unlimited uids (Add ''water_bottle'' 11 no_options) [bottles ''a'' 2, bottles ''b'' 4]
       = Some (Inr [bottles ''a'' 5, bottles ''b'' 5, bottles ''uid-'' 5, bottles ''uid-x'' 2])
   \<and> list_all stack_ok [bottles ''a'' 5, bottles ''b'' 5, bottles ''uid-'' 5, bottles ''uid-x'' 2]"
proof -
  let ?items = "[bottles ''a'' 2, bottles ''b'' 4]"
  have inv: "list_all stack_ok ?items"
    by (simp add: stack_ok_def bottles_def newItem_def water_bottle_def)
  have safe: "quantity_safe catalog1 (Add ''water_bottle'' 11 no_options) ?items"
    by (simp add: getBaseItem_def catalog1_def bottles_def newItem_def water_bottle_def)
  have run: "run catalog1 unlimited uids (Add ''water_bottle'' 11 no_options) ?items
       = Some (Inr [bottles ''a'' 5, bottles ''b'' 5, bottles ''uid-'' 5, bottles ''uid-x'' 2])"
    by (simp add: add_def catalog1_def getBaseItem_def water_bottle_def cloneItems_def
        handleItemStacking_def addNewItemStacks_def addNewItemStacks_loop.simps
        bottles_def newItem_def no_options_def unlimited_def uids_def
        verifyStackAndWeight_def or_number_def or_object_def)
  from quantity_bounds_preserved [OF inv safe run] inv safe run show ?thesis by simp
qed

text \<open>
  Claim C4 (remove locates the first stack of the given item type). \<^verbatim>\<open>remove\<close> compares its
  first argument with the \<^verbatim>\<open>uid\<close> of the stacks, not with their item type: called with
  the item type \<open>water_bottle\<close> and the quantity 1 on a collection whose only stack holds 5
  water bottles, it fails; called with the identifier of that stack, it decrements it.
\<close>

theorem remove_by_item_type_fails:
  "remove ''water_bottle'' 1 [bottles ''a'' 5] = Inl ''''
   \<and> item_id (bottles ''a'' 5) = ''water_bottle'' \<and> quantity (bottles ''a'' 5) = 5
   \<and> remove ''a'' 1 [bottles ''a'' 5] = Inr [bottles ''a'' 4]"
  by (simp add: remove_def cloneItems_def bottles_def newItem_def water_bottle_def no_options_def)

text \<open>
  Claim C5 fails on the code. \<^verbatim>\<open>split\<close> rejects an amount that is greater than or equal to
  the quantity of the stack, which keeps the source stack non-empty, and has no test for
  the amounts that leave the new stack empty. Splitting 0 bottles off a stack of 3 succeeds:
  the source keeps its 3 bottles and the appended stack has the quantity 0. Splitting off
  -2 bottles succeeds as well: the source grows to 5 bottles and the appended stack has
  the quantity -2. For an amount of at least 1 the code does what the claim says
  (\<open>split_positive_amount\<close>, \<open>split_uids\<close> and, for the deep copy of the auxiliary data,
  \<open>split_st_deep_copy\<close>).
\<close>

theorem split_appends_empty_stack:
  "split catalog1 unlimited uids ''a'' 0 [bottles ''a'' 3] no_options
     = Inr [bottles ''a'' 3, bottles ''uid-'' 0]
   \<and> map_sum id (map quantity) (split catalog1 unlimited uids ''a'' 0 [bottles ''a'' 3] no_options)
     = Inr [3, 0]
   \<and> split catalog1 unlimited uids ''a'' (- 2) [bottles ''a'' 3] no_options
     = Inr [bottles ''a'' 5, bottles ''uid-'' (- 2)]
   \<and> map_sum id (map quantity) (split catalog1 unlimited uids ''a'' (- 2) [bottles ''a'' 3] no_options)
     = Inr [5, - 2]"
proof -
  have zero: "split catalog1 unlimited uids ''a'' 0 [bottles ''a'' 3] no_options
     = Inr [bottles ''a'' 3, bottles ''uid-'' 0]"
    by (simp add: split_def catalog1_def getBaseItem_def water_bottle_def cloneItems_def
        bottles_def no_options_def unlimited_def uids_def
        verifyStackAndWeight_def or_number_def or_object_def)
  have negative: "split catalog1 unlimited uids ''a'' (- 2) [bottles ''a'' 3] no_options
     = Inr [bottles ''a'' 5, bottles ''uid-'' (- 2)]"
    by (simp add: split_def catalog1_def getBaseItem_def water_bottle_def cloneItems_def
        bottles_def no_options_def unlimited_def uids_def
        verifyStackAndWeight_def or_number_def or_object_def)
  have "map_sum id (map quantity) (split catalog1 unlimited uids ''a'' 0 [bottles ''a'' 3] no_options)
     = Inr [3, 0]"
    unfolding zero by (simp add: bottles_def)
  moreover
  have "map_sum id (map quantity) (split catalog1 unlimited uids ''a'' (- 2) [bottles ''a'' 3] no_options)
     = Inr [5, - 2]"
    unfolding negative by (simp add: bottles_def)
  ultimately show ?thesis using zero negative by simp
qed



text \<open>
  Claim C7, as stated, fails on the code in its last part. \<^verbatim>\<open>addSpecificItem\<close> pushes a
  shallow copy of the stack it is given, so the pushed stack refers to the nested objects
  of the argument. When the caller hands in a stack of the collection itself (the letter at
  reference 1 of the example store, whose \<^verbatim>\<open>data\<close> is the object at reference 2), the
  returned collection (the array at reference 5, with the items at 4 and 6) holds a stack
  whose \<^verbatim>\<open>data\<close> is that same object at reference 2: a write through either collection is
  seen through the other.
\<close>

theorem shared_data_counterexample:
  "allocated store1 0 \<and> arrays store1 0 = [1] \<and> data (objects store1 1) = Some 2
   \<and> (case addSpecificItem_st unlimited (objects store1 1) 0 no_options store1 of
         (res, s') \<Rightarrow> res = Inr 5 \<and> arrays s' 5 = [4, 6] \<and> arrays s' 0 = [1]
                       \<and> data (objects s' 6) = Some 2 \<and> data (objects s' 1) = Some 2
                       \<and> 2 \<in> nested_refs (objects s' 6) \<inter> nested_refs (objects s' 1))"
  by (simp add: allocated_def store1_def letter_def nested_refs_def
        addSpecificItem_st_def cloneItems_st_def objectData_def clone_nested_def
        new_nested_def new_object_def new_array_def push_st_def items_of_def
        unlimited_def no_options_def verifyStackAndWeight_def or_number_def or_object_def)

text \<open>
  Claim C7, amended. Whatever a call of an engine operation returns, and whether it
  succeeds or fails, every array, item object and nested object that existed before the call
  is after the call what it was before; in particular the caller's collection has the same
  array, the same items and the same value. The array that a successful call returns and
  the item objects it refers to are new; they share with the caller's collection at most
  nested objects (\<^verbatim>\<open>position\<close>, \<^verbatim>\<open>rules\<close>, \<^verbatim>\<open>data\<close>) that the caller passed in through the
  arguments of the call: the stack given to \<^verbatim>\<open>addSpecificItem\<close>, the patch given to
  \<^verbatim>\<open>update\<close>, the \<^verbatim>\<open>data\<close> option given to \<^verbatim>\<open>add\<close>.
\<close>

theorem input_collection_unchanged:
  assumes "run_st cat cfg g op a0 s = Some (res, s')"
  shows "unchanged s s'
       \<and> (allocated s a0 \<longrightarrow>
            arrays s' a0 = arrays s a0 \<and> items_of s' a0 = items_of s a0
            \<and> snapshot s' a0 = snapshot s a0
            \<and> (\<forall>a. res = Inr a \<longrightarrow>
                  a \<noteq> a0 \<and> set (arrays s' a) \<inter> set (arrays s' a0) = {}
                  \<and> (\<forall>r \<in> set (arrays s' a). \<forall>r0 \<in> set (arrays s' a0).
                        nested_refs (objects s' r) \<inter> nested_refs (objects s' r0)
                          \<subseteq> argument_refs op)))"
proof -
  have main: "unchanged s s' \<and> (\<forall>a. res = Inr a \<longrightarrow> owned (argument_refs op) s s' a)"
  proof (cases op)
    case (Add i qty options)
    with assms add_st_owned [of cat cfg g i qty a0 options s res s'] show ?thesis by simp
  next
    case (AddSpecificItem it options)
    with assms addSpecificItem_st_owned [of cfg it a0 options s res s'] show ?thesis by simp
  next
    case (Remove u qty)
    with assms remove_st_owned [of u qty a0 s res s' "{}"] show ?thesis by simp
  next
    case (RemoveAt u)
    obtain r t where e: "removeAt_st u a0 s = (r, t)" by (cases "removeAt_st u a0 s")
    from removeAt_st_owned [OF e, of "{}"] assms RemoveAt e show ?thesis
      by (auto split: sum.splits)
  next
    case (RemoveQuantityFrom u qty)
    with assms removeQuantityFrom_st_owned [of u qty a0 s res s' "{}"] show ?thesis by simp
  next
    case (Split u amountToSplit options)
    with assms split_st_owned [of cat cfg g u amountToSplit a0 options s res s' "{}"]
    show ?thesis by simp
  next
    case (Stack uidToStackOn uidToStack)
    with assms stack_st_owned [of cat uidToStackOn uidToStack a0 s res s' "{}"]
    show ?thesis by simp
  next
    case (Update u patch)
    with assms update_st_owned [of u patch a0 s res s'] show ?thesis by simp
  next
    case InvokeDecay
    obtain a t where e: "invokeDecay_st a0 s = (a, t)" by (cases "invokeDecay_st a0 s")
    from invokeDecay_st_owned [OF e, of "{}"] assms InvokeDecay e show ?thesis
      by (auto dest: owned_imp_unchanged)
  qed
  then have u: "unchanged s s'" ..
  have old: "arrays s' a0 = arrays s a0 \<and> items_of s' a0 = items_of s a0
            \<and> snapshot s' a0 = snapshot s a0
            \<and> (\<forall>a. res = Inr a \<longrightarrow>
                  a \<noteq> a0 \<and> set (arrays s' a) \<inter> set (arrays s' a0) = {}
                  \<and> (\<forall>r \<in> set (arrays s' a). \<forall>r0 \<in> set (arrays s' a0).
                        nested_refs (objects s' r) \<inter> nested_refs (objects s' r0)
                          \<subseteq> argument_refs op))"
    if al: "allocated s a0"
  proof -
    from al u have arr: "arrays s' a0 = arrays s a0"
      by (simp add: allocated_def unchanged_def)
    from al u have obj: "\<forall>r \<in> set (arrays s a0). objects s' r = objects s r"
      by (simp add: allocated_def unchanged_def)
    with arr have items: "items_of s' a0 = items_of s a0"
      by (simp add: items_of_def)
    have "resolve s' (objects s r) = resolve s (objects s r)" if "r \<in> set (arrays s a0)" for r
    proof -
      from al that have same: "\<forall>p \<in> nested_refs (objects s r). nested s' p = nested s p"
        using u by (simp add: allocated_def unchanged_def)
      have eq: "map_option (nested s') q = map_option (nested s) q"
        if "set_option q \<subseteq> nested_refs (objects s r)" for q
        using that same by (cases q) simp_all
      have "map_option (nested s') (position (objects s r)) = map_option (nested s) (position (objects s r))"
        and "map_option (nested s') (rules (objects s r)) = map_option (nested s) (rules (objects s r))"
        and "map_option (nested s') (data (objects s r)) = map_option (nested s) (data (objects s r))"
        by (rule eq, auto simp: nested_refs_def)+
      then show ?thesis
        by (simp add: resolve_def)
    qed
    with obj arr have snap: "snapshot s' a0 = snapshot s a0"
      by (simp add: snapshot_def items_of_def)
    have fresh: "a \<noteq> a0 \<and> set (arrays s' a) \<inter> set (arrays s' a0) = {}
                  \<and> (\<forall>r \<in> set (arrays s' a). \<forall>r0 \<in> set (arrays s' a0).
                        nested_refs (objects s' r) \<inter> nested_refs (objects s' r0)
                          \<subseteq> argument_refs op)"
      if "res = Inr a" for a
    proof -
      from main that have o: "owned (argument_refs op) s s' a" by simp
      from o al have ne: "a \<noteq> a0" by (auto simp: owned_def allocated_def)
      from o al arr have disj: "set (arrays s' a) \<inter> set (arrays s' a0) = {}"
        by (fastforce simp: owned_def allocated_def)
      have "nested_refs (objects s' r) \<inter> nested_refs (objects s' r0) \<subseteq> argument_refs op"
        if r: "r \<in> set (arrays s' a)" and r0: "r0 \<in> set (arrays s' a0)" for r r0
      proof
        fix p assume p: "p \<in> nested_refs (objects s' r) \<inter> nested_refs (objects s' r0)"
        from r0 arr obj have "objects s' r0 = objects s r0" and "r0 \<in> set (arrays s a0)"
          by simp_all
        with p al have "p < next_ref s" by (auto simp: allocated_def)
        moreover from o r p have "next_ref s \<le> p \<or> p \<in> argument_refs op"
          by (auto simp: owned_def)
        ultimately show "p \<in> argument_refs op" by simp
      qed
      with ne disj show ?thesis by blast
    qed
    from arr items snap fresh show ?thesis by blast
  qed
  from u old show ?thesis by blast
qed

theorem input_collection_unchanged_witness:
  "\<exists>res s'. run_st catalog1 unlimited uids (Update ''a'' (no_patch\<lparr>p_quantity := Some 7\<rparr>)) 0 store1
               = Some (res, s')
     \<and> allocated store1 0 \<and> res = Inr 5
     \<and> snapshot s' 0 = [letter ''a'' (Some (JObj [(''text'', JStr ''hello'')]))]
     \<and> snapshot s' 5 = [(letter ''a'' (Some (JObj [(''text'', JStr ''hello'')])))\<lparr>quantity := 7\<rparr>]
     \<and> set (arrays s' 5) \<inter> set (arrays s' 0) = {}"
proof -
  let ?op = "Update ''a'' (no_patch\<lparr>p_quantity := Some 7\<rparr>)"
  obtain res s' where e: "update_st ''a'' (no_patch\<lparr>p_quantity := Some 7\<rparr>) 0 store1 = (res, s')"
    by (cases "update_st ''a'' (no_patch\<lparr>p_quantity := Some 7\<rparr>) 0 store1")
  then have run: "run_st catalog1 unlimited uids ?op 0 store1 = Some (res, s')"
    by simp
  have al: "allocated store1 0"
    by (simp add: allocated_def store1_def letter_def nested_refs_def)
  have before: "snapshot store1 0 = [letter ''a'' (Some (JObj [(''text'', JStr ''hello'')]))]"
    by (simp add: snapshot_def items_of_def resolve_def store1_def letter_def)
  from e have res: "res = Inr 5"
    and after: "snapshot s' 5 = [(letter ''a'' (Some (JObj [(''text'', JStr ''hello'')])))\<lparr>quantity := 7\<rparr>]"
    by (auto simp: update_st_def cloneItems_st_def objectData_def clone_nested_def
        new_nested_def new_object_def new_array_def modify_def set_object_def items_of_def
        snapshot_def resolve_def store1_def letter_def no_patch_def
        object_assign_def assign_req_def assign_opt_def)
  note frame = input_collection_unchanged [OF run]
  from frame al have "snapshot s' 0 = snapshot store1 0" by blast
  with before have same: "snapshot s' 0 = [letter ''a'' (Some (JObj [(''text'', JStr ''hello'')]))]"
    by simp
  from frame al res have apart: "set (arrays s' 5) \<inter> set (arrays s' 0) = {}" by blast
  from run al res same after apart show ?thesis by blast
qed

text \<open>
  Claim C8: \<^verbatim>\<open>invokeDecay\<close> always returns a collection; it is the input collection in
  which every stack with a decay counter has the counter decremented by one and is removed
  when the decremented counter is zero or below, and every stack without a counter is
  unchanged. On a collection without decay counters the result is the input.
\<close>

theorem invokeDecay_ticks:
  fixes items :: "'n item list"
  shows "invokeDecay items = List.map_filter spec_decay_tick items
   \<and> ((\<forall>x \<in> set items. decay x = None) \<longrightarrow> invokeDecay items = items)"
proof -
  have eq: "invokeDecay items = List.map_filter spec_decay_tick items"
    using invokeDecay_loop_take_drop [of "length items" items]
    by (simp add: invokeDecay_def cloneItems_def)
  have "\<forall>x \<in> set xs. decay x = None \<Longrightarrow> List.map_filter spec_decay_tick xs = xs"
    for xs :: "'n item list"
    by (induction xs) (simp_all add: spec_decay_tick_def)
  with eq show ?thesis by simp
qed

theorem invokeDecay_ticks_witness:
  "invokeDecay [bottles ''a'' 2, bottles ''b'' 1] = [bottles ''a'' 2, bottles ''b'' 1]
   \<and> invokeDecay [(bottles ''a'' 2)\<lparr>decay := Some 1\<rparr>, bottles ''b'' 1, (bottles ''c'' 3)\<lparr>decay := Some 7\<rparr>]
       = [bottles ''b'' 1, (bottles ''c'' 3)\<lparr>decay := Some 6\<rparr>]"
  using invokeDecay_ticks [of "[bottles ''a'' 2, bottles ''b'' 1]"]
    invokeDecay_ticks [of "[(bottles ''a'' 2)\<lparr>decay := Some 1\<rparr>, bottles ''b'' 1, (bottles ''c'' 3)\<lparr>decay := Some 7\<rparr>]"]
  by (simp add: spec_decay_tick_def bottles_def newItem_def water_bottle_def)

text \<open>
  Claim C9, as stated, fails on the code: \<^verbatim>\<open>addSpecificItem\<close> appends the stack it is given
  with the identifier it carries, also when a stack of the collection has that identifier
  already.
\<close>

theorem uids_unique_counterexample:
  "uids_unique [bottles ''a'' 2]
   \<and> addSpecificItem unlimited (bottles ''a'' 1) [bottles ''a'' 2] no_options
       = Inr [bottles ''a'' 2, bottles ''a'' 1]
   \<and> \<not> uids_unique [bottles ''a'' 2, bottles ''a'' 1]"
  by (simp add: addSpecificItem_def cloneItems_def uids_unique_def
        bottles_def newItem_def water_bottle_def no_options_def unlimited_def
        verifyStackAndWeight_def or_number_def or_object_def)

text \<open>
  Claim C9, amended: when the identifiers of the collection are pairwise distinct and the
  generator returns identifiers that are new and pairwise distinct, the identifiers of the
  collection that a successful operation returns are pairwise distinct too, provided that a
  stack handed to \<^verbatim>\<open>addSpecificItem\<close> carries an identifier the collection does not have,
  and that a patch of \<^verbatim>\<open>update\<close> that sets \<^verbatim>\<open>uid\<close> sets it to the identifier of the
  patched stack or to one the collection does not have. \<^verbatim>\<open>add\<close> and \<^verbatim>\<open>split\<close> leave the
  identifiers of the stacks of the collection as they are and give the stacks they append
  the identifiers generated during the call, in the order of generation.
\<close>

theorem uids_unique_preserved:
  assumes "uids_unique items"
      and "fresh_uids g items"
      and "uid_safe op items"
      and "run cat cfg g op items = Some (Inr items')"
  shows "uids_unique items'
       \<and> (creates_stacks op \<longrightarrow>
            map uid items' = map uid items @ map g [0 ..< length items' - length items])"
proof -
  have created: "uids_unique items'
       \<and> map uid items' = map uid items @ map g [0 ..< length items' - length items]"
    if "map uid items' = map uid items @ map g [0 ..< n]" for n
  proof -
    from that have "length (map uid items') = length (map uid items @ map g [0 ..< n])"
      by simp
    then have n: "n = length items' - length items" by simp
    from fresh_append_distinct [OF assms(1,2), of n] that n show ?thesis
      by (simp add: uids_unique_def)
  qed
  show ?thesis
  proof (cases op)
    case (Add i qty options)
    with assms(4) have "add cat cfg g i qty items options = Some (Inr items')" by simp
    from add_uids [OF this] created Add show ?thesis by auto
  next
    case (AddSpecificItem it options)
    with assms(3,4) have new: "uid it \<notin> set (map uid items)"
      and res: "addSpecificItem cfg it items options = Inr items'"
      by simp_all
    from addSpecificItem_uids [OF assms(1) new res] AddSpecificItem show ?thesis by simp
  next
    case (Remove u qty)
    with assms show ?thesis by (auto intro: remove_uids)
  next
    case (RemoveAt u)
    with assms show ?thesis by (auto intro: removeAt_uids split: sum.splits)
  next
    case (RemoveQuantityFrom u qty)
    with assms show ?thesis by (auto intro: removeQuantityFrom_uids)
  next
    case (Split u amountToSplit options)
    with assms(4) have "split cat cfg g u amountToSplit items options = Inr items'" by simp
    from split_uids [OF this] created [of 1] Split show ?thesis by auto
  next
    case (Stack uidToStackOn uidToStack)
    with assms show ?thesis by (auto intro: stack_uids)
  next
    case (Update u patch)
    with assms(4) have "update u patch items = Inr items'" by simp
    from update_uids [OF assms(1) _ this] assms(3) Update show ?thesis by simp
  next
    case InvokeDecay
    with assms show ?thesis by (auto intro: invokeDecay_uids)
  qed
qed

theorem uids_unique_preserved_witness:
  "uids_unique [bottles ''a'' 2, bottles ''b'' 4]
   \<and> fresh_uids uids [bottles ''a'' 2, bottles ''b'' 4]
   \<and> uid_safe (Add ''water_bottle'' 11 no_options) [bottles ''a'' 2, bottles ''b'' 4]
   \<and> run catalog1 unlimited uids (Add ''water_bottle'' 11 no_options) [bottles ''a'' 2, bottles ''b'' 4]
       = Some (Inr [bottles ''a'' 5, bottles ''b'' 5, bottles ''uid-'' 5, bottles ''uid-x'' 2])
   \<and> uids_unique [bottles ''a'' 5, bottles ''b'' 5, bottles ''uid-'' 5, bottles ''uid-x'' 2]
   \<and> creates_stacks (Add ''water_bottle'' 11 no_options)"
proof -
  let ?items = "[bottles ''a'' 2, bottles ''b'' 4]"
  have inv: "uids_unique ?items"
    by (simp add: uids_unique_def bottles_def newItem_def)
  have "inj uids"
    by (rule injI) (simp add: uids_def)
  then have fresh: "fresh_uids uids ?items"
    by (simp add: fresh_uids_def uids_def bottles_def newItem_def)
  have safe: "uid_safe (Add ''water_bottle'' 11 no_options) ?items"
    by simp
  have run: "run catalog1 unlimited uids (Add ''water_bottle'' 11 no_options) ?items
       = Some (Inr [bottles ''a'' 5, bottles ''b'' 5, bottles ''uid-'' 5, bottles ''uid-x'' 2])"
    by (simp add: add_def catalog1_def getBaseItem_def water_bottle_def cloneItems_def
        handleItemStacking_def addNewItemStacks_def addNewItemStacks_loop.simps
        bottles_def newItem_def no_options_def unlimited_def uids_def
        verifyStackAndWeight_def or_number_def or_object_def)
  from uids_unique_preserved [OF inv fresh safe run] inv fresh safe run show ?thesis by simp
qed

text \<open>
  Claim C10: a \<^verbatim>\<open>maxWeight\<close> option of 0 is falsy, so \<^verbatim>\<open>verifyStackAndWeight\<close> replaces it
  by the configured default: the check with the option 0 is the cell check together with
  the weight check against \<^verbatim>\<open>ItemManagerConfig.weight.maxWeight\<close>, and it is the check made
  when the option is absent.
\<close>

theorem verify_falsy_maxWeight_uses_default:
  "verifyStackAndWeight cfg items (options\<lparr>opt_maxWeight := Some 0\<rparr>)
     = (let maxCells = or_object (opt_maxCells options) (slots_maxCells cfg);
            totalCellsOccupied = foldl (\<lambda>sum item. sum + width item * height item) 0 items
        in \<not> (slots_enabled cfg \<and> totalCellsOccupied > fst maxCells * snd maxCells)
           \<and> 0 < fst maxCells * snd maxCells
           \<and> \<not> (weight_enabled cfg \<and> isWeightExceeded items (weight_maxWeight cfg)))
   \<and> verifyStackAndWeight cfg items (options\<lparr>opt_maxWeight := Some 0\<rparr>)
     = verifyStackAndWeight cfg items (options\<lparr>opt_maxWeight := None\<rparr>)"
  by (auto simp: verifyStackAndWeight_def or_number_def Let_def)

theorem verify_falsy_maxWeight_uses_default_witness:
  "verifyStackAndWeight weight_limited [bottles ''a'' 2] (no_options\<lparr>opt_maxWeight := Some 0\<rparr>)
   \<and> isWeightExceeded [bottles ''a'' 2] 0"
  using verify_falsy_maxWeight_uses_default [of weight_limited "[bottles ''a'' 2]" no_options]
  by (simp add: weight_limited_def no_options_def bottles_def newItem_def water_bottle_def
        isWeightExceeded_def or_object_def)

end
